theory Spec2Isabelle
  imports Complex_Main "HOL-Library.Word"
begin

section \<open>The WAV decoder of src/index.ts\<close>

text \<open>
  The decoder is a pure transformation of a byte buffer. The closure of
  \<open>createReader\<close> holds one mutable variable, \<open>pos\<close>; here it is a field of the
  record \<open>Reader\<close> that every method takes and returns. An exception (a \<open>throw\<close>, or an
  \<open>Error\<close> object that \<open>decodeSync\<close> rethrows) is the left summand of the result, and a
  call that does not return is the value \<open>None\<close>.
\<close>

subsection \<open>Values\<close>

type_synonym byte = "8 word"

datatype error =
    InvalidWAV
  | UnsupportedFormat nat
  | NotSupportedBitDepth nat
  | RangeError
  | NullDereference
  | NotAnArrayBuffer

text \<open>
  \<open>InvalidWAV\<close>, \<open>UnsupportedFormat\<close> and \<open>NotSupportedBitDepth\<close> are the three
  \<open>TypeError\<close>s the source constructs. \<open>RangeError\<close> is what \<open>DataView\<close> raises for a
  read outside the buffer and what \<open>new Float32Array\<close> raises for a length that is
  negative or infinite. \<open>NullDereference\<close> is the \<open>TypeError\<close> of reading a property of
  \<open>null\<close> or \<open>undefined\<close> (a \<open>data\<close> chunk before any \<open>fmt \<close> chunk).
  \<open>NotAnArrayBuffer\<close> is the \<open>TypeError\<close> of \<open>new DataView\<close> on a value that is not an
  \<open>ArrayBuffer\<close>.
\<close>

text \<open>
  The numbers the frame count can be: a finite value, the two infinities and NaN
  (division by a zero block size or channel count).
\<close>

datatype jsnum = Num rat | PosInf | NegInf | NaN

fun jsdiv :: "jsnum \<Rightarrow> nat \<Rightarrow> jsnum" where
  "jsdiv (Num x) d =
     (if d = 0 then (if 0 < x then PosInf else if x < 0 then NegInf else NaN)
      else Num (x / of_nat d))"
| "jsdiv PosInf d = PosInf"
| "jsdiv NegInf d = NegInf"
| "jsdiv NaN d = NaN"

fun jsfloor :: "jsnum \<Rightarrow> jsnum" where
  "jsfloor (Num x) = Num (of_int \<lfloor>x\<rfloor>)"
| "jsfloor PosInf = PosInf"
| "jsfloor NegInf = NegInf"
| "jsfloor NaN = NaN"

text \<open>The comparison \<open>i < length\<close> for a loop counter \<open>i\<close>.\<close>

fun jsless :: "nat \<Rightarrow> jsnum \<Rightarrow> bool" where
  "jsless i (Num x) = (of_nat i < x)"
| "jsless i PosInf = True"
| "jsless i NegInf = False"
| "jsless i NaN = False"

text \<open>
  A decoded sample. The integer readers divide two integers; \<open>Scaled q\<close> stands for the
  number the division returns for the exact quotient \<open>q\<close> (its nearest double, then its
  nearest single when stored in a \<open>Float32Array\<close>). The float readers return the number
  whose IEEE bit pattern is in the buffer. The assignment to an element of a
  \<open>Float32Array\<close> rounds the number to single precision; the rounding is not computed
  here for any of the three: the arrays of the model hold the value as it was read, and
  \<open>Float64 w\<close> in an array stands for the single nearest to the double \<open>w\<close> (an infinity
  beyond the range of singles, a NaN for a NaN).
\<close>

datatype sample = Scaled rat | Float32 "32 word" | Float64 "64 word"

record Format =
  formatId :: nat
  floatingPoint :: bool
  numberOfChannels :: nat
  sampleRate :: nat
  byteRate :: nat
  blockSize :: nat
  bitDepth :: nat

text \<open>
  The object \<open>decodeData\<close> returns (interface \<open>DecodeInfo\<close>). \<open>decodeSync\<close> returns this
  object as it is: the \<open>AudioData\<close> of its signature names two of the four fields.
\<close>

record DecodeInfo =
  info_numberOfChannels :: nat
  info_length :: jsnum
  info_sampleRate :: nat
  channelData :: "sample list list"

record DecodeOptions =
  symmetric :: "bool option"

subsection \<open>DataView\<close>

definition inView :: "byte list \<Rightarrow> int \<Rightarrow> nat \<Rightarrow> bool" where
  "inView bs p n \<longleftrightarrow> 0 \<le> p \<and> p + int n \<le> int (length bs)"

definition bytesAt :: "byte list \<Rightarrow> int \<Rightarrow> nat \<Rightarrow> byte list" where
  "bytesAt bs p n = take n (drop (nat p) bs)"

fun le_nat :: "byte list \<Rightarrow> nat" where
  "le_nat [] = 0"
| "le_nat (b # bs) = unat b + 256 * le_nat bs"

definition getUint :: "nat \<Rightarrow> byte list \<Rightarrow> int \<Rightarrow> error + nat" where
  "getUint n bs p =
     (if inView bs p n then Inr (le_nat (bytesAt bs p n)) else Inl RangeError)"

definition signed :: "nat \<Rightarrow> nat \<Rightarrow> int" where
  "signed n v = (if 2 ^ (8 * n - 1) \<le> v then int v - 2 ^ (8 * n) else int v)"

definition getInt :: "nat \<Rightarrow> byte list \<Rightarrow> int \<Rightarrow> error + int" where
  "getInt n bs p =
     (if inView bs p n then Inr (signed n (le_nat (bytesAt bs p n))) else Inl RangeError)"

definition getUint8 :: "byte list \<Rightarrow> int \<Rightarrow> error + nat" where
  "getUint8 = getUint 1"

definition getUint16 :: "byte list \<Rightarrow> int \<Rightarrow> error + nat" where
  "getUint16 = getUint 2"

definition getUint32 :: "byte list \<Rightarrow> int \<Rightarrow> error + nat" where
  "getUint32 = getUint 4"

definition getInt16 :: "byte list \<Rightarrow> int \<Rightarrow> error + int" where
  "getInt16 = getInt 2"

definition getInt32 :: "byte list \<Rightarrow> int \<Rightarrow> error + int" where
  "getInt32 = getInt 4"

definition getFloat32 :: "byte list \<Rightarrow> int \<Rightarrow> error + sample" where
  "getFloat32 bs p =
     (if inView bs p 4 then Inr (Float32 (of_nat (le_nat (bytesAt bs p 4))))
      else Inl RangeError)"

definition getFloat64 :: "byte list \<Rightarrow> int \<Rightarrow> error + sample" where
  "getFloat64 bs p =
     (if inView bs p 8 then Inr (Float64 (of_nat (le_nat (bytesAt bs p 8))))
      else Inl RangeError)"

subsection \<open>createReader\<close>

text \<open>
  \<open>buf\<close> is the \<open>dataView\<close> and \<open>pos\<close> the variable of the closure. \<open>past\<close> is not in
  the source: it lists the values \<open>pos\<close> had before each assignment, the latest first,
  so that a property of every offset of a call can be stated.
\<close>

record Reader =
  buf :: "byte list"
  pos :: int
  past :: "int list"

definition createReader :: "byte list \<Rightarrow> Reader" where
  "createReader dataView = \<lparr>buf = dataView, pos = 0, past = []\<rparr>"

text \<open>The assignment \<open>pos += n\<close>.\<close>

definition advance :: "int \<Rightarrow> Reader \<Rightarrow> Reader" where
  "advance n r = r\<lparr>pos := pos r + n, past := pos r # past r\<rparr>"

type_synonym 'a reading = "Reader \<Rightarrow> (error + 'a) \<times> Reader"

text \<open>
  A method that reads through \<open>get\<close> at \<open>pos\<close>, adds the width \<open>w\<close> to \<open>pos\<close> and
  returns \<open>f data\<close>. When the read raises, \<open>pos\<close> keeps its value.
\<close>

definition fetch :: "(byte list \<Rightarrow> int \<Rightarrow> error + 'a) \<Rightarrow> int \<Rightarrow> ('a \<Rightarrow> 'b) \<Rightarrow> 'b reading" where
  "fetch get w f r =
     (case get (buf r) (pos r) of
        Inl e \<Rightarrow> (Inl e, r)
      | Inr data \<Rightarrow> (Inr (f data), advance w r))"

definition remain :: "Reader \<Rightarrow> int" where
  "remain r = int (length (buf r)) - pos r"

definition skip :: "int \<Rightarrow> Reader \<Rightarrow> Reader" where
  "skip n r = advance n r"

definition uint8 :: "nat reading" where
  "uint8 = fetch getUint8 1 (\<lambda>data. data)"

definition int16 :: "int reading" where
  "int16 = fetch getInt16 2 (\<lambda>data. data)"

definition uint16 :: "nat reading" where
  "uint16 = fetch getUint16 2 (\<lambda>data. data)"

definition uint32 :: "nat reading" where
  "uint32 = fetch getUint32 4 (\<lambda>data. data)"

fun string :: "nat \<Rightarrow> string reading" where
  "string 0 r = (Inr [], r)"
| "string (Suc n) r =
     (case uint8 r of
        (Inl e, r') \<Rightarrow> (Inl e, r')
      | (Inr c, r') \<Rightarrow>
          (case string n r' of
             (Inl e, r'') \<Rightarrow> (Inl e, r'')
           | (Inr data, r'') \<Rightarrow> (Inr (char_of c # data), r'')))"

definition pcm8 :: "sample reading" where
  "pcm8 = fetch getUint8 1 (\<lambda>b.
     let data = int b - 128
     in if data < 0 then Scaled (of_int data / 128) else Scaled (of_int data / 127))"

definition pcm8s :: "sample reading" where
  "pcm8s = fetch getUint8 1 (\<lambda>b.
     let data = of_nat b - 255 / 2
     in Scaled (data / (255 / 2)))"

definition pcm16 :: "sample reading" where
  "pcm16 = fetch getInt16 2 (\<lambda>data.
     if data < 0 then Scaled (of_int data / 32768) else Scaled (of_int data / 32767))"

definition pcm16s :: "sample reading" where
  "pcm16s = fetch getInt16 2 (\<lambda>data. Scaled (of_int data / 32768))"

text \<open>
  The three bytes of a 24-bit sample are read one by one, at \<open>pos\<close>, \<open>pos + 1\<close> and
  \<open>pos + 2\<close>; \<open>x1 << 8\<close> and \<open>x2 << 16\<close> are below \<open>2^24\<close>, so the shifts are
  multiplications.
\<close>

definition getUint24parts :: "byte list \<Rightarrow> int \<Rightarrow> error + int" where
  "getUint24parts bs p =
     (case getUint8 bs (p + 0) of Inl e \<Rightarrow> Inl e | Inr x0 \<Rightarrow>
     (case getUint8 bs (p + 1) of Inl e \<Rightarrow> Inl e | Inr x1 \<Rightarrow>
     (case getUint8 bs (p + 2) of Inl e \<Rightarrow> Inl e | Inr x2 \<Rightarrow>
        let xx = int x0 + int x1 * 2 ^ 8 + int x2 * 2 ^ 16
        in Inr (if xx > 0x800000 then xx - 0x1000000 else xx))))"

definition pcm24 :: "sample reading" where
  "pcm24 = fetch getUint24parts 3 (\<lambda>data.
     if data < 0 then Scaled (of_int data / 8388608) else Scaled (of_int data / 8388607))"

definition pcm24s :: "sample reading" where
  "pcm24s = fetch getUint24parts 3 (\<lambda>data. Scaled (of_int data / 8388608))"

definition pcm32 :: "sample reading" where
  "pcm32 = fetch getInt32 4 (\<lambda>data.
     if data < 0 then Scaled (of_int data / 2147483648)
     else Scaled (of_int data / 2147483647))"

definition pcm32s :: "sample reading" where
  "pcm32s = fetch getInt32 4 (\<lambda>data. Scaled (of_int data / 2147483648))"

definition pcm32f :: "sample reading" where
  "pcm32f = fetch getFloat32 4 (\<lambda>data. data)"

definition pcm64f :: "sample reading" where
  "pcm64f = fetch getFloat64 8 (\<lambda>data. data)"

subsection \<open>decodeFormat\<close>

text \<open>The table \<open>formats\<close>: its keys are the recognised format tags.\<close>

definition formats :: "nat \<Rightarrow> string option" where
  "formats = map_of [(0x0001, ''lpcm''), (0x0003, ''lpcm'')]"

text \<open>Sequencing of two cursor operations: an error of the first ends the sequence.\<close>

definition andThen :: "'a reading \<Rightarrow> ('a \<Rightarrow> 'b reading) \<Rightarrow> 'b reading" where
  "andThen m f r =
     (case m r of
        (Inl e, r') \<Rightarrow> (Inl e, r')
      | (Inr v, r') \<Rightarrow> f v r')"

definition decodeFormat :: "nat \<Rightarrow> Format reading" where
  "decodeFormat chunkSize =
     andThen uint16 (\<lambda>formatId.
       if formats formatId = None then (\<lambda>r. (Inl (UnsupportedFormat formatId), r))
       else
         andThen uint16 (\<lambda>numberOfChannels.
         andThen uint32 (\<lambda>sampleRate.
         andThen uint32 (\<lambda>byteRate.
         andThen uint16 (\<lambda>blockSize.
         andThen uint16 (\<lambda>bitDepth. (\<lambda>r.
           (Inr \<lparr>formatId = formatId,
                 floatingPoint = (formatId = 0x0003),
                 numberOfChannels = numberOfChannels,
                 sampleRate = sampleRate,
                 byteRate = byteRate,
                 blockSize = blockSize,
                 bitDepth = bitDepth\<rparr>,
            skip (int chunkSize - 16) r))))))))"

subsection \<open>readPCM\<close>

text \<open>
  The reader's sample methods by name. \<open>readPCM\<close> looks a method up under the name
  \<open>'pcm' + bitDepth + decoderOption\<close>; the other properties of the reader (\<open>remain\<close>,
  \<open>skip\<close>, \<open>uint8\<close>, ...) do not start with \<open>pcm\<close> and are never found.
\<close>

definition pcmMethods :: "(string \<times> sample reading) list" where
  "pcmMethods =
     [(''pcm8'', pcm8), (''pcm8s'', pcm8s),
      (''pcm16'', pcm16), (''pcm16s'', pcm16s),
      (''pcm24'', pcm24), (''pcm24s'', pcm24s),
      (''pcm32'', pcm32), (''pcm32s'', pcm32s),
      (''pcm32f'', pcm32f), (''pcm64f'', pcm64f)]"

text \<open>The decimal text of a number, as string concatenation produces it.\<close>

fun decimal :: "nat \<Rightarrow> string" where
  "decimal n =
     (if n < 10 then [char_of (48 + n)]
      else decimal (n div 10) @ [char_of (48 + n mod 10)])"

text \<open>
  The inner loop of \<open>readPCM\<close>: one sample for each channel \<open>ch, ch + 1, ...\<close> of
  frame \<open>i\<close>. Assigning to an element of \<open>channelData[ch]\<close> raises when there is no such
  array; an index outside a \<open>Float32Array\<close> is ignored.
\<close>

function readChannels ::
  "sample reading \<Rightarrow> nat \<Rightarrow> nat \<Rightarrow> nat \<Rightarrow> sample list list \<Rightarrow> (sample list list) reading"
where
  "readChannels read channels i ch chans r =
     (if ch < channels then
        (case read r of
           (Inl e, r') \<Rightarrow> (Inl e, r')
         | (Inr v, r') \<Rightarrow>
             if ch < length chans then
               readChannels read channels i (ch + 1)
                 (chans[ch := (chans ! ch)[i := v]]) r'
             else (Inl NullDereference, r'))
      else (Inr chans, r))"
  by pat_completeness auto
termination
  by (relation "measure (\<lambda>(read, channels, i, ch, chans, r). channels - ch)")
     auto

text \<open>
  The outer loop of \<open>readPCM\<close>, \<open>for (i = 0; i < length; i++)\<close>. With an infinite
  \<open>length\<close> it has no end, so it is a partial function: \<open>None\<close> is a loop that does not
  return.
\<close>

partial_function (option) readFrames ::
  "sample reading \<Rightarrow> nat \<Rightarrow> jsnum \<Rightarrow> nat \<Rightarrow> sample list list \<Rightarrow> Reader
   \<Rightarrow> ((error + sample list list) \<times> Reader) option"
where
  "readFrames read channels len i chans r =
     (if jsless i len then
        (case readChannels read channels i 0 chans r of
           (Inl e, r') \<Rightarrow> Some (Inl e, r')
         | (Inr chans', r') \<Rightarrow>
             readFrames read channels len (i + 1) chans' r')
      else Some (Inr chans, r))"

text \<open>A value is truthy: \<open>undefined\<close> and \<open>false\<close> are not.\<close>

definition truthy :: "bool option \<Rightarrow> bool" where
  "truthy v = (v = Some True)"

definition decoderOption :: "Format \<Rightarrow> DecodeOptions \<Rightarrow> string" where
  "decoderOption format opts =
     (if floatingPoint format then ''f''
      else if truthy (symmetric opts) then ''s'' else [])"

definition methodName :: "Format \<Rightarrow> DecodeOptions \<Rightarrow> string" where
  "methodName format opts = ''pcm'' @ decimal (bitDepth format) @ decoderOption format opts"

text \<open>
  \<open>readPCM\<close> fills the arrays of \<open>channelData\<close> in place and returns \<open>null\<close>, or
  returns an error; here it returns the filled arrays.
\<close>

definition readPCM ::
  "sample list list \<Rightarrow> jsnum \<Rightarrow> Format \<Rightarrow> DecodeOptions \<Rightarrow> Reader
   \<Rightarrow> ((error + sample list list) \<times> Reader) option"
where
  "readPCM chans len format opts r =
     (case map_of pcmMethods (methodName format opts) of
        None \<Rightarrow> Some (Inl (NotSupportedBitDepth (bitDepth format)), r)
      | Some read \<Rightarrow>
          readFrames read (numberOfChannels format) len 0 chans r)"

subsection \<open>decodeData\<close>

text \<open>
  \<open>new Float32Array(length)\<close>: the length is truncated to an integer (NaN to 0); a
  negative or infinite length raises; the elements are zero.
\<close>

fun newFloat32Array :: "jsnum \<Rightarrow> error + sample list" where
  "newFloat32Array (Num x) =
     (let n = (if x < 0 then - \<lfloor>- x\<rfloor> else \<lfloor>x\<rfloor>)
      in if n < 0 then Inl RangeError else Inr (replicate (nat n) (Scaled 0)))"
| "newFloat32Array PosInf = Inl RangeError"
| "newFloat32Array NegInf = Inl RangeError"
| "newFloat32Array NaN = Inr []"

text \<open>
  The loop that fills \<open>channelData\<close> with one new array for each channel; with no
  channel, no array is created and nothing can raise.
\<close>

fun newChannels :: "nat \<Rightarrow> jsnum \<Rightarrow> error + sample list list" where
  "newChannels 0 len = Inr []"
| "newChannels (Suc n) len =
     (case newFloat32Array len of
        Inl e \<Rightarrow> Inl e
      | Inr a \<Rightarrow> (case newChannels n len of Inl e \<Rightarrow> Inl e | Inr as \<Rightarrow> Inr (a # as)))"

text \<open>
  \<open>Math.floor(chunkSize / format.blockSize / numberOfChannels)\<close>. The quotients are
  taken over the rationals. The doubles of the source give the same floor: the sizes
  are below \<open>2^32\<close> and the divisors below \<open>2^16\<close>, so the rounding error of the two
  divisions is far smaller than the distance of an inexact quotient from the next
  integer, and an exact integer quotient is computed exactly.
\<close>

definition frameLength :: "int \<Rightarrow> Format \<Rightarrow> jsnum" where
  "frameLength chunkSize format =
     jsfloor (jsdiv (jsdiv (Num (of_int chunkSize)) (blockSize format)) (numberOfChannels format))"

definition decodeData ::
  "nat \<Rightarrow> Format option \<Rightarrow> DecodeOptions \<Rightarrow> Reader \<Rightarrow> ((error + DecodeInfo) \<times> Reader) option"
where
  "decodeData chunkSize format opts r =
     (let chunkSize = min (int chunkSize) (remain r)
      in case format of
           None \<Rightarrow> Some (Inl NullDereference, r)
         | Some format \<Rightarrow>
            (let numberOfChannels = numberOfChannels format;
                 length = frameLength chunkSize format;
                 sampleRate = sampleRate format
             in case newChannels numberOfChannels length of
                  Inl e \<Rightarrow> Some (Inl e, r)
                | Inr chans \<Rightarrow>
                   (case readPCM chans length format opts r of
                      None \<Rightarrow> None
                    | Some (Inl e, r') \<Rightarrow> Some (Inl e, r')
                    | Some (Inr chans', r') \<Rightarrow>
                        Some (Inr \<lparr>info_numberOfChannels = numberOfChannels,
                                   info_length = length,
                                   info_sampleRate = sampleRate,
                                   channelData = chans'\<rparr>, r'))))"

subsection \<open>What a successful read does to the cursor\<close>

lemma advance_simps [simp]:
  "buf (advance n r) = buf r"
  "pos (advance n r) = pos r + n"
  "past (advance n r) = pos r # past r"
  by (simp_all add: advance_def)

lemma fetch_cases:
  "fetch get w f r = (res, r') \<Longrightarrow>
     (\<exists>e. get (buf r) (pos r) = Inl e \<and> res = Inl e \<and> r' = r) \<or>
     (\<exists>d. get (buf r) (pos r) = Inr d \<and> res = Inr (f d) \<and> r' = advance w r)"
  by (auto simp: fetch_def split: sum.splits)

lemma getUint_Inr: "getUint n bs p = Inr v \<Longrightarrow> inView bs p n"
  by (simp add: getUint_def split: if_splits)

lemma uint8_Inr: "uint8 r = (Inr v, r') \<Longrightarrow> inView (buf r) (pos r) 1 \<and> r' = advance 1 r"
  by (auto simp: uint8_def getUint8_def dest!: fetch_cases getUint_Inr)

lemma uint16_Inr: "uint16 r = (Inr v, r') \<Longrightarrow> inView (buf r) (pos r) 2 \<and> r' = advance 2 r"
  by (auto simp: uint16_def getUint16_def dest!: fetch_cases getUint_Inr)

lemma uint32_Inr: "uint32 r = (Inr v, r') \<Longrightarrow> inView (buf r) (pos r) 4 \<and> r' = advance 4 r"
  by (auto simp: uint32_def getUint32_def dest!: fetch_cases getUint_Inr)

lemma string_Inr:
  "string n r = (Inr s, r') \<Longrightarrow>
     buf r' = buf r \<and> pos r' = pos r + int n \<and> (0 < n \<longrightarrow> inView (buf r) (pos r) n)"
proof (induction n arbitrary: r s r')
  case 0
  then show ?case by simp
next
  case (Suc n)
  from Suc.prems obtain c r1 s1 where
    u: "uint8 r = (Inr c, r1)" and st: "string n r1 = (Inr s1, r')"
    by (auto split: prod.splits sum.splits)
  from uint8_Inr [OF u] have v: "inView (buf r) (pos r) 1" and r1: "r1 = advance 1 r"
    by auto
  from Suc.IH [OF st] r1 have
    "buf r' = buf r" "pos r' = pos r + 1 + int n" "0 < n \<longrightarrow> inView (buf r) (pos r + 1) n"
    by auto
  with v show ?case by (cases n) (auto simp: inView_def)
qed

lemma andThen_Inr:
  "andThen m f r = (Inr v, r') \<Longrightarrow> \<exists>x r1. m r = (Inr x, r1) \<and> f x r1 = (Inr v, r')"
  by (auto simp: andThen_def split: prod.splits sum.splits)

lemma decodeFormat_Inr:
  "decodeFormat chunkSize r = (Inr f, r') \<Longrightarrow>
     buf r' = buf r \<and> pos r' = pos r + int chunkSize \<and> inView (buf r) (pos r) 16"
  unfolding decodeFormat_def
  by (auto dest!: andThen_Inr uint16_Inr uint32_Inr split: if_splits simp: skip_def inView_def)

subsection \<open>decodeSync\<close>

text \<open>
  The loop \<open>do ... while (audioData === null)\<close> of \<open>decodeSync\<close>, from the cursor \<open>r\<close>
  and the value \<open>format\<close> of the variable of that name (\<open>None\<close> is \<open>null\<close>).
  \<open>decodeData\<close> returns an object or an error, never \<open>null\<close>, so the loop ends with the
  first \<open>data\<close> chunk. Every other turn of the loop moves the cursor forward by the
  eight bytes of the chunk header at least, which is why the loop ends.
\<close>

function walk ::
  "DecodeOptions \<Rightarrow> Format option \<Rightarrow> Reader \<Rightarrow> ((error + DecodeInfo) \<times> Reader) option"
where
  "walk opts format r =
     (case string 4 r of
        (Inl e, r1) \<Rightarrow> Some (Inl e, r1)
      | (Inr chunkType, r1) \<Rightarrow>
         (case uint32 r1 of
            (Inl e, r2) \<Rightarrow> Some (Inl e, r2)
          | (Inr chunkSize, r2) \<Rightarrow>
              if chunkType = ''fmt '' then
                (case decodeFormat chunkSize r2 of
                   (Inl e, r3) \<Rightarrow> Some (Inl e, r3)
                 | (Inr format', r3) \<Rightarrow> walk opts (Some format') r3)
              else if chunkType = ''data'' then decodeData chunkSize format opts r2
              else walk opts format (skip (int chunkSize) r2)))"
  by pat_completeness auto
termination
proof (relation "measure (\<lambda>(opts, format, r). nat (int (length (buf r)) - pos r))", goal_cases)
  case 1
  show ?case by simp
next
  case (2 opts format r x1 r1 chunkType x2 r2 chunkSize x r3 format')
  have a: "string 4 r = (Inr chunkType, r1)" using 2 by simp
  have b: "uint32 r1 = (Inr chunkSize, r2)" using 2 by simp
  have c: "decodeFormat chunkSize r2 = (Inr format', r3)" using 2 by simp
  from string_Inr [OF a] uint32_Inr [OF b] decodeFormat_Inr [OF c]
  show ?case by (auto simp: inView_def)
next
  case (3 opts format r x1 r1 chunkType x2 r2 chunkSize)
  have a: "string 4 r = (Inr chunkType, r1)" using 3 by simp
  have b: "uint32 r1 = (Inr chunkSize, r2)" using 3 by simp
  from string_Inr [OF a] uint32_Inr [OF b]
  show ?case by (auto simp: inView_def skip_def)
qed

declare walk.simps [simp del]

text \<open>
  The part of \<open>decodeSync\<close> before the loop: the tag \<open>RIFF\<close>, the file length (read
  and dropped) and the tag \<open>WAVE\<close>.
\<close>

definition riffHeader :: "unit reading" where
  "riffHeader reader =
     (case string 4 reader of
        (Inl e, r1) \<Rightarrow> (Inl e, r1)
      | (Inr riff, r1) \<Rightarrow>
          if riff \<noteq> ''RIFF'' then (Inl InvalidWAV, r1)
          else
            (case uint32 r1 of
               (Inl e, r2) \<Rightarrow> (Inl e, r2)
             | (Inr fileLength, r2) \<Rightarrow>
                 (case string 4 r2 of
                    (Inl e, r3) \<Rightarrow> (Inl e, r3)
                  | (Inr wave, r3) \<Rightarrow>
                      if wave \<noteq> ''WAVE'' then (Inl InvalidWAV, r3)
                      else (Inr (), r3))))"

text \<open>
  \<open>decodeSync\<close> with the cursor it leaves behind. \<open>opts || {}\<close> replaces a missing
  options object by one without \<open>symmetric\<close>. A Node \<open>Buffer\<close> is first copied into an
  \<open>ArrayBuffer\<close> of the same bytes, which leaves the byte list as it is.
\<close>

definition decodeSync_run ::
  "byte list \<Rightarrow> DecodeOptions option \<Rightarrow> ((error + DecodeInfo) \<times> Reader) option"
where
  "decodeSync_run buffer opts =
     (let opts = (case opts of None \<Rightarrow> \<lparr>symmetric = None\<rparr> | Some given \<Rightarrow> given);
          reader = createReader buffer
      in case riffHeader reader of
           (Inl e, r) \<Rightarrow> Some (Inl e, r)
         | (Inr ok, r) \<Rightarrow> walk opts None r)"

text \<open>What the caller of \<open>decodeSync\<close> gets: the decoded audio or the error thrown.\<close>

definition decodeSync :: "byte list \<Rightarrow> DecodeOptions option \<Rightarrow> (error + DecodeInfo) option" where
  "decodeSync buffer opts = map_option fst (decodeSync_run buffer opts)"

subsection \<open>The states of the loop\<close>

text \<open>
  The states in which the loop of \<open>decodeSync\<close> starts a turn, in order: the value of
  \<open>format\<close> and the cursor, which stands at a chunk header. The list follows the loop
  (same reads, same branches) and stops with the turn that ends it: a \<open>data\<close> chunk or
  an error. It is used to state which chunks a call meets.
\<close>

function turns :: "Format option \<Rightarrow> Reader \<Rightarrow> (Format option \<times> Reader) list" where
  "turns format r =
     (format, r) #
     (case string 4 r of
        (Inl e, r1) \<Rightarrow> []
      | (Inr chunkType, r1) \<Rightarrow>
         (case uint32 r1 of
            (Inl e, r2) \<Rightarrow> []
          | (Inr chunkSize, r2) \<Rightarrow>
              if chunkType = ''fmt '' then
                (case decodeFormat chunkSize r2 of
                   (Inl e, r3) \<Rightarrow> []
                 | (Inr format', r3) \<Rightarrow> turns (Some format') r3)
              else if chunkType = ''data'' then []
              else turns format (skip (int chunkSize) r2)))"
  by pat_completeness auto
termination
proof (relation "measure (\<lambda>(format, r). nat (int (length (buf r)) - pos r))", goal_cases)
  case 1
  show ?case by simp
next
  case (2 format r x1 r1 chunkType x2 r2 chunkSize x r3 format')
  have a: "string 4 r = (Inr chunkType, r1)" using 2 by simp
  have b: "uint32 r1 = (Inr chunkSize, r2)" using 2 by simp
  have c: "decodeFormat chunkSize r2 = (Inr format', r3)" using 2 by simp
  from string_Inr [OF a] uint32_Inr [OF b] decodeFormat_Inr [OF c]
  show ?case by (auto simp: inView_def)
next
  case (3 format r x1 r1 chunkType x2 r2 chunkSize)
  have a: "string 4 r = (Inr chunkType, r1)" using 3 by simp
  have b: "uint32 r1 = (Inr chunkSize, r2)" using 3 by simp
  from string_Inr [OF a] uint32_Inr [OF b]
  show ?case by (auto simp: inView_def skip_def)
qed

declare turns.simps [simp del]

text \<open>The states of the loop in a call of \<open>decodeSync\<close>; none when the header is refused.\<close>

definition loopStates :: "byte list \<Rightarrow> (Format option \<times> Reader) list" where
  "loopStates buffer =
     (case riffHeader (createReader buffer) of
        (Inl e, r) \<Rightarrow> []
      | (Inr ok, r) \<Rightarrow> turns None r)"

subsection \<open>The module and its closures\<close>

text \<open>
  What exists outside the arguments of \<open>decodeSync\<close>: the object \<open>formats\<close> of the
  module, given by its properties; the variables of the closures that \<open>createReader\<close>
  has returned so far, one scope (with \<open>dataView\<close> and \<open>pos\<close>) for each call of
  \<open>createReader\<close>; and whether \<open>global.Buffer\<close> is defined.
\<close>

record World =
  formatsObject :: "(nat \<times> string) list"
  scopes :: "Reader list"
  globalBuffer :: bool

















subsection \<open>Notions used in the statements\<close>

text \<open>Every value \<open>pos\<close> has had, the first one first, the current one last.\<close>

definition offsets :: "Reader \<Rightarrow> int list" where
  "offsets r = rev (pos r # past r)"

text \<open>The size that the chunk header at the cursor declares, when its tag is \<open>fmt \<close>.\<close>

definition fmtSize :: "Reader \<Rightarrow> nat option" where
  "fmtSize r =
     (case string 4 r of
        (Inl e, r1) \<Rightarrow> None
      | (Inr chunkType, r1) \<Rightarrow>
          if chunkType = ''fmt '' then
            (case uint32 r1 of (Inl e, r2) \<Rightarrow> None | (Inr chunkSize, r2) \<Rightarrow> Some chunkSize)
          else None)"


text \<open>The values that \<open>k\<close> calls of \<open>read\<close> in a row return, from the cursor \<open>r\<close>.\<close>

fun readMany :: "'a reading \<Rightarrow> nat \<Rightarrow> 'a list reading" where
  "readMany read 0 r = (Inr [], r)"
| "readMany read (Suc k) r =
     (case read r of
        (Inl e, r') \<Rightarrow> (Inl e, r')
      | (Inr v, r') \<Rightarrow>
          (case readMany read k r' of
             (Inl e, r'') \<Rightarrow> (Inl e, r'')
           | (Inr vs, r'') \<Rightarrow> (Inr (v # vs), r'')))"

subsection \<open>Notions used in the proofs\<close>

text \<open>An operation that leaves the offsets in order when it finds them in order.\<close>

definition keepsOrder :: "'a reading \<Rightarrow> bool" where
  "keepsOrder m \<longleftrightarrow> (\<forall>r. sorted (offsets r) \<longrightarrow> sorted (offsets (snd (m r))))"

text \<open>
  A reader of width \<open>w\<close>: with \<open>w\<close> bytes in view at the cursor it returns a value and
  moves the cursor by \<open>w\<close>; otherwise it raises and leaves the cursor.
\<close>

definition reads :: "nat \<Rightarrow> 'a reading \<Rightarrow> bool" where
  "reads w read \<longleftrightarrow>
     (\<forall>r. if inView (buf r) (pos r) w then (\<exists>v. read r = (Inr v, advance (int w) r))
          else read r = (Inl RangeError, r))"

text \<open>The number that a decimal text stands for.\<close>

definition undecimal :: "string \<Rightarrow> nat" where
  "undecimal s = foldl (\<lambda>a c. 10 * a + (of_char c - 48)) 0 s"

text \<open>
  Two cursors at the same offset, with the same history, over buffers of the same
  length that hold the same bytes from the offset \<open>q\<close> on.
\<close>

definition sameFrom :: "int \<Rightarrow> Reader \<Rightarrow> Reader \<Rightarrow> bool" where
  "sameFrom q r r' \<longleftrightarrow>
     pos r' = pos r \<and> past r' = past r \<and> length (buf r') = length (buf r)
     \<and> (\<forall>k. nat q \<le> k \<longrightarrow> k < length (buf r) \<longrightarrow> buf r' ! k = buf r ! k)"

text \<open>
  An operation that does not look before \<open>q\<close> when the cursor is at \<open>q\<close> or after it:
  on two such cursors it returns the same value and leaves two such cursors.
\<close>

definition localOp :: "'a reading \<Rightarrow> bool" where
  "localOp m \<longleftrightarrow>
     (\<forall>q r r'. sameFrom q r r' \<longrightarrow> 0 \<le> q \<longrightarrow> q \<le> pos r \<longrightarrow>
        fst (m r') = fst (m r) \<and> sameFrom q (snd (m r)) (snd (m r')))"

text \<open>An operation that never leaves the cursor before the place where it found it.\<close>

definition forward :: "'a reading \<Rightarrow> bool" where
  "forward m \<longleftrightarrow> (\<forall>r. pos r \<le> pos (snd (m r)))"

text \<open>A read of the \<open>DataView\<close> at \<open>p\<close> that does not look before \<open>p\<close>.\<close>

definition localGet :: "(byte list \<Rightarrow> int \<Rightarrow> error + 'a) \<Rightarrow> bool" where
  "localGet get \<longleftrightarrow>
     (\<forall>bs bs' p q. length bs' = length bs \<longrightarrow> 0 \<le> q \<longrightarrow> q \<le> p \<longrightarrow>
        (\<forall>k. nat q \<le> k \<longrightarrow> k < length bs \<longrightarrow> bs' ! k = bs ! k) \<longrightarrow> get bs' p = get bs p)"

text \<open>The world with the scope at the address \<open>a\<close> replaced.\<close>

definition put :: "nat \<Rightarrow> Reader \<Rightarrow> World \<Rightarrow> World" where
  "put a r w = w\<lparr>scopes := (scopes w)[a := r]\<rparr>"

text \<open>The object \<open>formats\<close> has the properties the module gave it.\<close>

definition intact :: "World \<Rightarrow> bool" where
  "intact w \<longleftrightarrow> formatsObject w = [(0x0001, ''lpcm''), (0x0003, ''lpcm'')]"


subsection \<open>Buffers\<close>

text \<open>
  The buffers on which the theorems below are tried. \<open>pcm16Wav\<close>: one channel, 16
  bits, 8000 Hz, the two samples 1 and -1.
\<close>

definition pcm16Wav :: "byte list" where
  "pcm16Wav =
     [0x52, 0x49, 0x46, 0x46, 40, 0, 0, 0, 0x57, 0x41, 0x56, 0x45,
      0x66, 0x6D, 0x74, 0x20, 16, 0, 0, 0, 1, 0, 1, 0, 0x40, 0x1F, 0, 0, 0x80, 0x3E, 0, 0,
      2, 0, 16, 0,
      0x64, 0x61, 0x74, 0x61, 4, 0, 0, 0, 1, 0, 0xFF, 0xFF]"

text \<open>Two channels, 16 bits, block size 4, the two frames (1, 2) and (3, 4).\<close>

definition stereo16Wav :: "byte list" where
  "stereo16Wav =
     [0x52, 0x49, 0x46, 0x46, 44, 0, 0, 0, 0x57, 0x41, 0x56, 0x45,
      0x66, 0x6D, 0x74, 0x20, 16, 0, 0, 0, 1, 0, 2, 0, 0x40, 0x1F, 0, 0, 0x00, 0x7D, 0, 0,
      4, 0, 16, 0,
      0x64, 0x61, 0x74, 0x61, 8, 0, 0, 0, 1, 0, 2, 0, 3, 0, 4, 0]"

text \<open>Format tag 3, one channel, 32 bits, the one sample \<open>0x3F800000\<close> (1.0).\<close>

definition float32Wav :: "byte list" where
  "float32Wav =
     [0x52, 0x49, 0x46, 0x46, 40, 0, 0, 0, 0x57, 0x41, 0x56, 0x45,
      0x66, 0x6D, 0x74, 0x20, 16, 0, 0, 0, 3, 0, 1, 0, 0x40, 0x1F, 0, 0, 0, 0x7D, 0, 0,
      4, 0, 32, 0,
      0x64, 0x61, 0x74, 0x61, 4, 0, 0, 0, 0, 0, 0x80, 0x3F]"

text \<open>
  A \<open>JUNK\<close> chunk of one byte, a \<open>fmt \<close> chunk with the format tag 2 and a \<open>data\<close>
  chunk.
\<close>

definition adpcmWav :: "byte list" where
  "adpcmWav =
     [0x52, 0x49, 0x46, 0x46, 36, 0, 0, 0, 0x57, 0x41, 0x56, 0x45,
      0x4A, 0x55, 0x4E, 0x4B, 1, 0, 0, 0, 7,
      0x66, 0x6D, 0x74, 0x20, 16, 0, 0, 0, 2, 0, 1, 0, 0x40, 0x1F, 0, 0, 0x80, 0x3E, 0, 0,
      2, 0, 16, 0,
      0x64, 0x61, 0x74, 0x61, 2, 0, 0, 0, 1, 0]"

text \<open>A \<open>fmt \<close> chunk that declares the size 0, followed by the 16 bytes of a format.\<close>

definition shortFmtWav :: "byte list" where
  "shortFmtWav =
     [0x52, 0x49, 0x46, 0x46, 28, 0, 0, 0, 0x57, 0x41, 0x56, 0x45,
      0x66, 0x6D, 0x74, 0x20, 0, 0, 0, 0, 1, 0, 1, 0, 0x40, 0x1F, 0, 0, 0x80, 0x3E, 0, 0,
      2, 0, 16, 0]"

text \<open>One channel, 24 bits, the two samples \<open>00 00 80\<close> and \<open>FF FF 7F\<close>.\<close>

definition pcm24Wav :: "byte list" where
  "pcm24Wav =
     [0x52, 0x49, 0x46, 0x46, 42, 0, 0, 0, 0x57, 0x41, 0x56, 0x45,
      0x66, 0x6D, 0x74, 0x20, 16, 0, 0, 0, 1, 0, 1, 0, 0x40, 0x1F, 0, 0, 0xC0, 0x5D, 0, 0,
      3, 0, 24, 0,
      0x64, 0x61, 0x74, 0x61, 6, 0, 0, 0, 0x00, 0x00, 0x80, 0xFF, 0xFF, 0x7F]"

text \<open>
  One channel, 16 bits, block size 1; the \<open>data\<close> chunk declares 100 bytes and has 3.
\<close>

definition shortBlockWav :: "byte list" where
  "shortBlockWav =
     [0x52, 0x49, 0x46, 0x46, 39, 0, 0, 0, 0x57, 0x41, 0x56, 0x45,
      0x66, 0x6D, 0x74, 0x20, 16, 0, 0, 0, 1, 0, 1, 0, 0x40, 0x1F, 0, 0, 0x80, 0x3E, 0, 0,
      1, 0, 16, 0,
      0x64, 0x61, 0x74, 0x61, 100, 0, 0, 0, 1, 0, 2]"

text \<open>
  One channel, 16 bits, the two samples 1 and -1, with a \<open>JUNK\<close> chunk of three bytes
  (the letters \<open>dat\<close>) between the \<open>fmt \<close> chunk and the \<open>data\<close> chunk.
\<close>

definition junkWav :: "byte list" where
  "junkWav =
     [0x52, 0x49, 0x46, 0x46, 51, 0, 0, 0, 0x57, 0x41, 0x56, 0x45,
      0x66, 0x6D, 0x74, 0x20, 16, 0, 0, 0, 1, 0, 1, 0, 0x40, 0x1F, 0, 0, 0x80, 0x3E, 0, 0,
      2, 0, 16, 0,
      0x4A, 0x55, 0x4E, 0x4B, 3, 0, 0, 0, 0x64, 0x61, 0x74,
      0x64, 0x61, 0x74, 0x61, 4, 0, 0, 0, 1, 0, 0xFF, 0xFF]"

section \<open>Evaluation\<close>

text \<open>
  The recursive equations of the loops are applied on demand, not by default. The facts
  below evaluate the decoder on a concrete buffer.
\<close>

declare readChannels.simps [simp del]

declare decimal.simps [simp del]

lemma string_numeral:
  "string (numeral k) r =
     (case uint8 r of
        (Inl e, r') \<Rightarrow> (Inl e, r')
      | (Inr c, r') \<Rightarrow>
          (case string (pred_numeral k) r' of
             (Inl e, r'') \<Rightarrow> (Inl e, r'')
           | (Inr data, r'') \<Rightarrow> (Inr (char_of c # data), r'')))"
  by (simp add: numeral_eq_Suc)

lemmas eval_reader =
  string_numeral uint8_def uint16_def uint32_def fetch_def getUint8_def getUint16_def
  getUint32_def getUint_def inView_def bytesAt_def advance_def skip_def char_of_eq_iff

lemmas eval_format = decodeFormat_def andThen_def formats_def

lemmas eval_sync = decodeSync_run_def createReader_def riffHeader_def walk.simps turns.simps

lemmas eval_data =
  decodeData_def remain_def frameLength_def readPCM_def methodName_def decoderOption_def
  truthy_def decimal.simps pcmMethods_def readFrames.simps readChannels.simps

lemmas eval_pcm =
  pcm8_def pcm8s_def pcm16_def pcm16s_def pcm24_def pcm24s_def pcm32_def pcm32s_def
  pcm32f_def pcm64f_def getInt16_def getInt32_def getInt_def signed_def getUint24parts_def
  getFloat32_def getFloat64_def

lemma replicate_numeral: "replicate (numeral k) x = x # replicate (pred_numeral k) x"
  by (simp add: numeral_eq_Suc)

lemma floor_rat_numeral: "\<lfloor>(numeral a :: rat) / numeral b\<rfloor> = numeral a div numeral b"
  using floor_divide_of_int_eq [of "numeral a" "numeral b", where ?'a = rat] by simp

lemma newChannels_numeral:
  "newChannels (numeral k) len =
     (case newFloat32Array len of
        Inl e \<Rightarrow> Inl e
      | Inr a \<Rightarrow>
          (case newChannels (pred_numeral k) len of Inl e \<Rightarrow> Inl e | Inr as \<Rightarrow> Inr (a # as)))"
  by (simp add: numeral_eq_Suc)

lemmas eval_all =
  eval_sync eval_reader eval_format eval_data eval_pcm replicate_numeral floor_rat_numeral
  newChannels_numeral

section \<open>The frame loop\<close>

lemma readFrames_stops:
  "\<not> jsless i len \<Longrightarrow> readFrames read n len i chans r = Some (Inr chans, r)"
  by (subst readFrames.simps) simp

lemma readFrames_step:
  "jsless i len \<Longrightarrow>
   readFrames read n len i chans r =
     (case readChannels read n i 0 chans r of
        (Inl e, r') \<Rightarrow> Some (Inl e, r')
      | (Inr chans', r') \<Rightarrow> readFrames read n len (i + 1) chans' r')"
  by (subst readFrames.simps) simp

lemma readFrames_finite_returns:
  "\<exists>y. readFrames read n (Num x) i chans r = Some y"
proof (induction "nat \<lceil>x\<rceil> - i" arbitrary: i chans r)
  case 0
  then have "\<lceil>x\<rceil> \<le> int i" by simp
  then have "x \<le> of_nat i"
    by (metis ceiling_le_iff of_int_of_nat_eq)
  then have "\<not> jsless i (Num x)" by simp
  then show ?case by (simp add: readFrames_stops)
next
  case (Suc k)
  show ?case
  proof (cases "jsless i (Num x)")
    case False
    then show ?thesis by (simp add: readFrames_stops)
  next
    case True
    obtain res r' where rc: "readChannels read n i 0 chans r = (res, r')"
      by (cases "readChannels read n i 0 chans r")
    show ?thesis
    proof (cases res)
      case (Inl e)
      with rc True show ?thesis by (simp add: readFrames_step)
    next
      case (Inr chans')
      from Suc.hyps(2) have "k = nat \<lceil>x\<rceil> - (i + 1)" by simp
      from Suc.hyps(1) [OF this] obtain y where
        "readFrames read n (Num x) (i + 1) chans' r' = Some y" by blast
      with rc Inr True show ?thesis by (simp add: readFrames_step)
    qed
  qed
qed

lemma readChannels_no_channel: "readChannels read 0 i ch chans r = (Inr chans, r)"
  by (subst readChannels.simps) simp

lemma readFrames_no_channel_forever:
  "readFrames read 0 PosInf i chans r = None"
proof (cases "readFrames read 0 PosInf i chans r")
  case None
  then show ?thesis .
next
  case (Some y)
  have "\<not> (0 = (0::nat) \<and> PosInf = PosInf)"
  proof (rule readFrames.raw_induct
      [where P = "\<lambda>read n len i chans r y. \<not> (n = 0 \<and> len = PosInf)", OF _ Some])
    fix loop read n len i chans r y
    assume IH: "\<And>read n len i chans r y.
        loop read n len i chans r = Some y \<Longrightarrow> \<not> (n = 0 \<and> len = PosInf)"
      and eq: "(if jsless i len
        then case readChannels read n i 0 chans r of
             (Inl e, r') \<Rightarrow> Some (Inl e, r')
           | (Inr chans', r') \<Rightarrow> loop read n len (i + 1) chans' r'
        else Some (Inr chans, r)) = Some y"
    show "\<not> (n = 0 \<and> len = PosInf)"
    proof
      assume a: "n = 0 \<and> len = PosInf"
      with eq have "loop read n len (i + 1) chans r = Some y"
        by (simp add: readChannels_no_channel)
      from IH [OF this] a show False by simp
    qed
  qed
  then show ?thesis by simp
qed

lemma frameLength_finite:
  assumes "1 \<le> numberOfChannels format" "1 \<le> blockSize format"
  shows "frameLength c format =
    Num (of_int \<lfloor>of_int c / of_nat (blockSize format) / of_nat (numberOfChannels format) :: rat\<rfloor>)"
  using assms by (simp add: frameLength_def)

lemma frameLength_no_channel:
  assumes "numberOfChannels format = 0" "0 < c"
  shows "frameLength c format = PosInf"
  using assms by (simp add: frameLength_def)

lemma decodeData_returns:
  assumes "frameLength (min (int chunkSize) (remain r)) format = Num x"
  shows "\<exists>y. decodeData chunkSize (Some format) opts r = Some y"
proof (cases "newChannels (numberOfChannels format) (Num x)")
  case (Inl e)
  with assms show ?thesis by (simp add: decodeData_def)
next
  case (Inr chans)
  show ?thesis
  proof (cases "map_of pcmMethods (methodName format opts)")
    case None
    with Inr assms show ?thesis by (simp add: decodeData_def readPCM_def)
  next
    case (Some read)
    obtain y where "readFrames read (numberOfChannels format) (Num x) 0 chans r = Some y"
      using readFrames_finite_returns by blast
    with Some Inr assms show ?thesis
      by (cases y) (auto simp: decodeData_def readPCM_def split: sum.splits)
  qed
qed

text \<open>
  C9. With at least one channel and a block size of at least 1 the frame length that
  \<open>decodeData\<close> computes is a finite integer (not negative when the cursor is inside
  the buffer) and \<open>decodeData\<close> returns, with audio or with an error. With no channel
  and a positive clamped chunk size the frame length is \<open>+Infinity\<close>, the loop of
  \<open>readPCM\<close> over the frames never ends, and neither does \<open>decodeData\<close> when the bit
  depth has a reader (otherwise \<open>readPCM\<close> returns its error before the loop).
\<close>

theorem decodeData_terminates_unless_no_channel:
  "(1 \<le> numberOfChannels format \<and> 1 \<le> blockSize format \<longrightarrow>
      (\<exists>k. frameLength (min (int chunkSize) (remain r)) format = Num (of_int k)
           \<and> (0 \<le> remain r \<longrightarrow> 0 \<le> k))
      \<and> (\<exists>y. decodeData chunkSize (Some format) opts r = Some y))
   \<and> (numberOfChannels format = 0 \<and> 0 < min (int chunkSize) (remain r) \<longrightarrow>
      frameLength (min (int chunkSize) (remain r)) format = PosInf
      \<and> readFrames read 0 PosInf i chans r' = None
      \<and> (map_of pcmMethods (methodName format opts) \<noteq> None \<longrightarrow>
           decodeData chunkSize (Some format) opts r = None))"
proof (intro conjI impI)
  assume a: "1 \<le> numberOfChannels format \<and> 1 \<le> blockSize format"
  let ?c = "min (int chunkSize) (remain r)"
  let ?q = "of_int ?c / of_nat (blockSize format) / of_nat (numberOfChannels format) :: rat"
  have fl: "frameLength ?c format = Num (of_int \<lfloor>?q\<rfloor>)"
    using a by (simp add: frameLength_finite)
  have "0 \<le> remain r \<longrightarrow> 0 \<le> \<lfloor>?q\<rfloor>"
    by (simp add: min_def)
  with fl show "\<exists>k. frameLength ?c format = Num (of_int k) \<and> (0 \<le> remain r \<longrightarrow> 0 \<le> k)"
    by blast
  from fl show "\<exists>y. decodeData chunkSize (Some format) opts r = Some y"
    by (rule decodeData_returns)
next
  assume a: "numberOfChannels format = 0 \<and> 0 < min (int chunkSize) (remain r)"
  then show fl: "frameLength (min (int chunkSize) (remain r)) format = PosInf"
    by (simp add: frameLength_no_channel)
  show "readFrames read 0 PosInf i chans r' = None"
    by (rule readFrames_no_channel_forever)
  assume "map_of pcmMethods (methodName format opts) \<noteq> None"
  then obtain rd where "map_of pcmMethods (methodName format opts) = Some rd" by blast
  with a fl show "decodeData chunkSize (Some format) opts r = None"
    by (simp add: decodeData_def readPCM_def readFrames_no_channel_forever)
qed

theorem decodeData_terminates_unless_no_channel_witness:
  "(\<exists>y. decodeData 4
          (Some \<lparr>formatId = 1, floatingPoint = False, numberOfChannels = 1, sampleRate = 8000,
                 byteRate = 16000, blockSize = 2, bitDepth = 16\<rparr>)
          \<lparr>symmetric = None\<rparr> \<lparr>buf = [1, 0, 2, 0], pos = 0, past = []\<rparr> = Some y)
   \<and> decodeData 4
          (Some \<lparr>formatId = 1, floatingPoint = False, numberOfChannels = 0, sampleRate = 8000,
                 byteRate = 16000, blockSize = 2, bitDepth = 16\<rparr>)
          \<lparr>symmetric = None\<rparr> \<lparr>buf = [1, 0, 2, 0], pos = 0, past = []\<rparr> = None"
  using
    decodeData_terminates_unless_no_channel
      [of "\<lparr>formatId = 1, floatingPoint = False, numberOfChannels = 1, sampleRate = 8000,
             byteRate = 16000, blockSize = 2, bitDepth = 16\<rparr>"
          4 "\<lparr>buf = [1, 0, 2, 0], pos = 0, past = []\<rparr>" "\<lparr>symmetric = None\<rparr>"]
    decodeData_terminates_unless_no_channel
      [of "\<lparr>formatId = 1, floatingPoint = False, numberOfChannels = 0, sampleRate = 8000,
             byteRate = 16000, blockSize = 2, bitDepth = 16\<rparr>"
          4 "\<lparr>buf = [1, 0, 2, 0], pos = 0, past = []\<rparr>" "\<lparr>symmetric = None\<rparr>"]
  by (simp add: remain_def methodName_def decoderOption_def truthy_def decimal.simps
      pcmMethods_def char_of_eq_iff)

section \<open>The chunk loop\<close>

lemma walk_fmt:
  assumes "string 4 r = (Inr ''fmt '', r1)" "uint32 r1 = (Inr chunkSize, r2)"
    "decodeFormat chunkSize r2 = (Inr format', r3)"
  shows "walk opts format r = walk opts (Some format') r3"
  using assms by (subst walk.simps) simp

lemma walk_other:
  assumes "string 4 r = (Inr chunkType, r1)" "uint32 r1 = (Inr chunkSize, r2)"
    "chunkType \<noteq> ''fmt ''" "chunkType \<noteq> ''data''"
  shows "walk opts format r = walk opts format (skip (int chunkSize) r2)"
  using assms by (subst walk.simps) simp

lemma walk_data:
  assumes "string 4 r = (Inr ''data'', r1)" "uint32 r1 = (Inr chunkSize, r2)"
  shows "walk opts format r = decodeData chunkSize format opts r2"
  using assms by (subst walk.simps) simp

lemma walk_tag_error:
  assumes "string 4 r = (Inl e, r1)"
  shows "walk opts format r = Some (Inl e, r1)"
  using assms by (subst walk.simps) simp

lemma walk_size_error:
  assumes "string 4 r = (Inr chunkType, r1)" "uint32 r1 = (Inl e, r2)"
  shows "walk opts format r = Some (Inl e, r2)"
  using assms by (subst walk.simps) simp

lemma walk_fmt_error:
  assumes "string 4 r = (Inr ''fmt '', r1)" "uint32 r1 = (Inr chunkSize, r2)"
    "decodeFormat chunkSize r2 = (Inl e, r3)"
  shows "walk opts format r = Some (Inl e, r3)"
  using assms by (subst walk.simps) simp

lemma turns_tag_error:
  "string 4 r = (Inl e, r1) \<Longrightarrow> turns format r = [(format, r)]"
  by (subst turns.simps) simp

lemma turns_size_error:
  "string 4 r = (Inr chunkType, r1) \<Longrightarrow> uint32 r1 = (Inl e, r2) \<Longrightarrow>
   turns format r = [(format, r)]"
  by (subst turns.simps) simp

lemma turns_fmt_error:
  "string 4 r = (Inr ''fmt '', r1) \<Longrightarrow> uint32 r1 = (Inr chunkSize, r2) \<Longrightarrow>
   decodeFormat chunkSize r2 = (Inl e, r3) \<Longrightarrow> turns format r = [(format, r)]"
  by (subst turns.simps) simp

lemma turns_fmt:
  "string 4 r = (Inr ''fmt '', r1) \<Longrightarrow> uint32 r1 = (Inr chunkSize, r2) \<Longrightarrow>
   decodeFormat chunkSize r2 = (Inr format', r3) \<Longrightarrow>
   turns format r = (format, r) # turns (Some format') r3"
  by (subst turns.simps) simp

lemma turns_data:
  "string 4 r = (Inr ''data'', r1) \<Longrightarrow> uint32 r1 = (Inr chunkSize, r2) \<Longrightarrow>
   turns format r = [(format, r)]"
  by (subst turns.simps) simp

lemma turns_other:
  "string 4 r = (Inr chunkType, r1) \<Longrightarrow> uint32 r1 = (Inr chunkSize, r2) \<Longrightarrow>
   chunkType \<noteq> ''fmt '' \<Longrightarrow> chunkType \<noteq> ''data'' \<Longrightarrow>
   turns format r = (format, r) # turns format (skip (int chunkSize) r2)"
  by (subst turns.simps) simp

lemma turns_head: "(format, r) \<in> set (turns format r)"
  by (subst turns.simps) simp

lemma loop_induct [case_names tag_error size_error fmt_error fmt data other]:
  assumes "\<And>format r e r1. string 4 r = (Inl e, r1) \<Longrightarrow> P format r"
    and "\<And>format r chunkType r1 e r2.
      string 4 r = (Inr chunkType, r1) \<Longrightarrow> uint32 r1 = (Inl e, r2) \<Longrightarrow> P format r"
    and "\<And>format r r1 chunkSize r2 e r3.
      string 4 r = (Inr ''fmt '', r1) \<Longrightarrow> uint32 r1 = (Inr chunkSize, r2) \<Longrightarrow>
      decodeFormat chunkSize r2 = (Inl e, r3) \<Longrightarrow> P format r"
    and "\<And>format r r1 chunkSize r2 format' r3.
      string 4 r = (Inr ''fmt '', r1) \<Longrightarrow> uint32 r1 = (Inr chunkSize, r2) \<Longrightarrow>
      decodeFormat chunkSize r2 = (Inr format', r3) \<Longrightarrow> P (Some format') r3 \<Longrightarrow> P format r"
    and "\<And>format r r1 chunkSize r2.
      string 4 r = (Inr ''data'', r1) \<Longrightarrow> uint32 r1 = (Inr chunkSize, r2) \<Longrightarrow> P format r"
    and "\<And>format r chunkType r1 chunkSize r2.
      string 4 r = (Inr chunkType, r1) \<Longrightarrow> uint32 r1 = (Inr chunkSize, r2) \<Longrightarrow>
      chunkType \<noteq> ''fmt '' \<Longrightarrow> chunkType \<noteq> ''data'' \<Longrightarrow>
      P format (skip (int chunkSize) r2) \<Longrightarrow> P format r"
  shows "P format r"
proof (induction format r rule: turns.induct)
  case (1 format r)
  obtain x1 r1 where s: "string 4 r = (x1, r1)" by (cases "string 4 r")
  show ?case
  proof (cases x1)
    case (Inl e)
    with s show ?thesis by (auto intro: assms(1))
  next
    case (Inr chunkType)
    note ct = this
    obtain x2 r2 where u: "uint32 r1 = (x2, r2)" by (cases "uint32 r1")
    show ?thesis
    proof (cases x2)
      case (Inl e)
      with s ct u show ?thesis by (auto intro: assms(2))
    next
      case (Inr chunkSize)
      note cs = this
      consider (fmt) "chunkType = ''fmt ''" | (data) "chunkType = ''data''"
        | (other) "chunkType \<noteq> ''fmt ''" "chunkType \<noteq> ''data''" by blast
      then show ?thesis
      proof cases
        case fmt
        obtain x3 r3 where d: "decodeFormat chunkSize r2 = (x3, r3)"
          by (cases "decodeFormat chunkSize r2")
        show ?thesis
        proof (cases x3)
          case (Inl e)
          with s ct u cs fmt d show ?thesis by (auto intro: assms(3))
        next
          case (Inr format')
          have "P (Some format') r3"
            by (rule "1.IH"(1) [OF s [symmetric] ct u [symmetric] cs fmt d [symmetric] Inr])
          with s ct u cs fmt d Inr show ?thesis by (auto intro: assms(4))
        qed
      next
        case data
        with s ct u cs show ?thesis by (auto intro: assms(5))
      next
        case other
        have "P format (skip (int chunkSize) r2)"
          by (rule "1.IH"(2) [OF s [symmetric] ct u [symmetric] cs other])
        with s ct u cs other show ?thesis by (auto intro: assms(6))
      qed
    qed
  qed
qed

lemma walk_turns:
  "(f, r') \<in> set (turns format r) \<Longrightarrow> walk opts format r = walk opts f r'"
proof (induction format r rule: loop_induct)
  case (tag_error format r e r1)
  then show ?case by (simp add: turns_tag_error)
next
  case (size_error format r chunkType r1 e r2)
  then show ?case by (simp add: turns_size_error)
next
  case (fmt_error format r r1 chunkSize r2 e r3)
  then show ?case by (simp add: turns_fmt_error)
next
  case (fmt format r r1 chunkSize r2 format' r3)
  then show ?case by (auto simp: turns_fmt walk_fmt)
next
  case (data format r r1 chunkSize r2)
  then show ?case by (simp add: turns_data)
next
  case (other format r chunkType r1 chunkSize r2)
  then show ?case by (auto simp: turns_other walk_other)
qed

lemma string_Inr_advance:
  "string n r = (Inr s, r') \<Longrightarrow> r' = (advance 1 ^^ n) r"
proof (induction n arbitrary: r s r')
  case 0
  then show ?case by simp
next
  case (Suc n)
  from Suc.prems obtain c r1 s1 where
    u: "uint8 r = (Inr c, r1)" and st: "string n r1 = (Inr s1, r')"
    by (auto split: prod.splits sum.splits)
  from uint8_Inr [OF u] have r1: "r1 = advance 1 r" by simp
  from Suc.IH [OF st] r1 show ?case by (simp add: funpow_swap1)
qed

lemma string4_Inr:
  "string 4 r = (Inr s, r') \<Longrightarrow> r' = advance 1 (advance 1 (advance 1 (advance 1 r)))"
  by (drule string_Inr_advance) (simp add: numeral_eq_Suc)

lemma decodeSync_run_walk:
  assumes "riffHeader (createReader buffer) = (Inr (), r0)"
  shows "decodeSync_run buffer opts =
    walk (case opts of None \<Rightarrow> \<lparr>symmetric = None\<rparr> | Some given \<Rightarrow> given) None r0"
  using assms by (simp add: decodeSync_run_def)

subsection \<open>The bytes before the cursor\<close>

text \<open>
  No operation of the reader looks at a byte before the cursor, and no turn of the
  loop leaves the cursor before the place where the turn found it. So the result of
  the loop from a cursor at \<open>q\<close> or after it is the same on two buffers of one length
  that hold the same bytes from \<open>q\<close> on.
\<close>

lemma sameFrom_advance: "sameFrom q r r' \<Longrightarrow> sameFrom q (advance n r) (advance n r')"
  by (simp add: sameFrom_def)

lemma bytesAt_same:
  assumes "length bs' = length bs" "0 \<le> q" "q \<le> p"
    and "\<forall>k. nat q \<le> k \<longrightarrow> k < length bs \<longrightarrow> bs' ! k = bs ! k"
  shows "bytesAt bs' p n = bytesAt bs p n"
  unfolding bytesAt_def
proof (rule nth_equalityI)
  show "length (take n (drop (nat p) bs')) = length (take n (drop (nat p) bs))"
    using assms(1) by simp
next
  fix i
  assume "i < length (take n (drop (nat p) bs'))"
  then have i: "i < n" "nat p + i < length bs"
    using assms(1) by auto
  moreover have "nat q \<le> nat p + i"
    using assms(2,3) by linarith
  ultimately show "take n (drop (nat p) bs') ! i = take n (drop (nat p) bs) ! i"
    using assms(1,4) by simp
qed

lemma localGet_getUint: "localGet (getUint n)"
  unfolding localGet_def
proof (intro allI impI)
  fix bs bs' :: "byte list" and p q :: int
  assume a: "length bs' = length bs" "0 \<le> q" "q \<le> p"
    "\<forall>k. nat q \<le> k \<longrightarrow> k < length bs \<longrightarrow> bs' ! k = bs ! k"
  from bytesAt_same [OF a] a(1) show "getUint n bs' p = getUint n bs p"
    by (simp add: getUint_def inView_def)
qed

lemma localGet_getInt: "localGet (getInt n)"
  unfolding localGet_def
proof (intro allI impI)
  fix bs bs' :: "byte list" and p q :: int
  assume a: "length bs' = length bs" "0 \<le> q" "q \<le> p"
    "\<forall>k. nat q \<le> k \<longrightarrow> k < length bs \<longrightarrow> bs' ! k = bs ! k"
  from bytesAt_same [OF a] a(1) show "getInt n bs' p = getInt n bs p"
    by (simp add: getInt_def inView_def)
qed

lemma localGet_getFloat: "localGet getFloat32" "localGet getFloat64"
  unfolding localGet_def
proof (intro allI impI)
  fix bs bs' :: "byte list" and p q :: int
  assume a: "length bs' = length bs" "0 \<le> q" "q \<le> p"
    "\<forall>k. nat q \<le> k \<longrightarrow> k < length bs \<longrightarrow> bs' ! k = bs ! k"
  from bytesAt_same [OF a] a(1) show "getFloat32 bs' p = getFloat32 bs p"
    by (simp add: getFloat32_def inView_def)
next
  show "\<forall>bs bs' p q. length bs' = length bs \<longrightarrow> 0 \<le> q \<longrightarrow> q \<le> p \<longrightarrow>
       (\<forall>k. nat q \<le> k \<longrightarrow> k < length bs \<longrightarrow> bs' ! k = bs ! k) \<longrightarrow>
       getFloat64 bs' p = getFloat64 bs p"
  proof (intro allI impI)
    fix bs bs' :: "byte list" and p q :: int
    assume a: "length bs' = length bs" "0 \<le> q" "q \<le> p"
      "\<forall>k. nat q \<le> k \<longrightarrow> k < length bs \<longrightarrow> bs' ! k = bs ! k"
    from bytesAt_same [OF a] a(1) show "getFloat64 bs' p = getFloat64 bs p"
      by (simp add: getFloat64_def inView_def)
  qed
qed

lemma localGetD:
  "localGet get \<Longrightarrow> length bs' = length bs \<Longrightarrow> 0 \<le> q \<Longrightarrow> q \<le> p \<Longrightarrow>
   \<forall>k. nat q \<le> k \<longrightarrow> k < length bs \<longrightarrow> bs' ! k = bs ! k \<Longrightarrow> get bs' p = get bs p"
  unfolding localGet_def by blast

lemma localGet_getUint24parts: "localGet getUint24parts"
  unfolding localGet_def
proof (intro allI impI)
  fix bs bs' :: "byte list" and p q :: int
  assume a: "length bs' = length bs" "0 \<le> q" "q \<le> p"
    "\<forall>k. nat q \<le> k \<longrightarrow> k < length bs \<longrightarrow> bs' ! k = bs ! k"
  have "getUint8 bs' (p + j) = getUint8 bs (p + j)" if "0 \<le> j" for j
    unfolding getUint8_def
    by (rule localGetD [OF localGet_getUint, of bs' bs q]) (use a that in simp_all)
  from this [of 0] this [of 1] this [of 2]
  show "getUint24parts bs' p = getUint24parts bs p"
    by (simp add: getUint24parts_def cong: sum.case_cong)
qed

lemma localOp_fetch:
  assumes "localGet get"
  shows "localOp (fetch get w f)"
  unfolding localOp_def
proof (intro allI impI)
  fix q r r'
  assume s: "sameFrom q r r'" and q: "0 \<le> q" "q \<le> pos r"
  from s q have "get (buf r') (pos r) = get (buf r) (pos r)"
    by (intro localGetD [OF assms, of "buf r'" "buf r" q "pos r"]) (simp_all add: sameFrom_def)
  moreover from s have "pos r' = pos r"
    by (simp add: sameFrom_def)
  ultimately have "get (buf r') (pos r') = get (buf r) (pos r)"
    by simp
  with s show "fst (fetch get w f r') = fst (fetch get w f r)
      \<and> sameFrom q (snd (fetch get w f r)) (snd (fetch get w f r'))"
    by (auto simp: fetch_def sameFrom_advance split: sum.splits)
qed

lemma forward_fetch: "0 \<le> w \<Longrightarrow> forward (fetch get w f)"
  by (auto simp: forward_def fetch_def split: sum.splits)


lemma localOpD:
  assumes "localOp m" "sameFrom q r r'" "0 \<le> q" "q \<le> pos r" "m r = (x, r1)"
  shows "\<exists>r1'. m r' = (x, r1') \<and> sameFrom q r1 r1'"
proof -
  from assms(1-4) have "fst (m r') = fst (m r) \<and> sameFrom q (snd (m r)) (snd (m r'))"
    unfolding localOp_def by blast
  with assms(5) show ?thesis by (cases "m r'") simp
qed

lemma forwardD: "forward m \<Longrightarrow> m r = (x, r1) \<Longrightarrow> pos r \<le> pos r1"
  unfolding forward_def by (metis snd_conv)

lemma localOp_andThen:
  assumes m: "localOp m" and fw: "forward m" and f: "\<And>x. localOp (f x)"
  shows "localOp (andThen m f)"
  unfolding localOp_def
proof (intro allI impI)
  fix q r r'
  assume s: "sameFrom q r r'" and q: "0 \<le> q" "q \<le> pos r"
  obtain x r1 where mr: "m r = (x, r1)" by (cases "m r")
  from localOpD [OF m s q mr] obtain r1' where
    mr': "m r' = (x, r1')" and s1: "sameFrom q r1 r1'" by blast
  from forwardD [OF fw mr] q have q1: "q \<le> pos r1" by simp
  show "fst (andThen m f r') = fst (andThen m f r)
      \<and> sameFrom q (snd (andThen m f r)) (snd (andThen m f r'))"
  proof (cases x)
    case (Inl e)
    with mr mr' s1 show ?thesis by (simp add: andThen_def)
  next
    case (Inr v)
    from f [of v] s1 q(1) q1
    have "fst (f v r1') = fst (f v r1) \<and> sameFrom q (snd (f v r1)) (snd (f v r1'))"
      unfolding localOp_def by blast
    with Inr mr mr' show ?thesis by (simp add: andThen_def)
  qed
qed

lemma localOp_uint: "localOp uint8" "localOp uint16" "localOp uint32"
  by (simp_all add: uint8_def uint16_def uint32_def getUint8_def getUint16_def getUint32_def
      localOp_fetch localGet_getUint)

lemma forward_uint: "forward uint8" "forward uint16" "forward uint32"
  by (simp_all add: uint8_def uint16_def uint32_def forward_fetch)

lemma localOp_skip: "localOp (\<lambda>r. (Inr v, skip n r))"
  by (simp add: localOp_def skip_def sameFrom_advance)

lemma localOp_fail: "localOp (\<lambda>r. (Inl e, r))"
  by (simp add: localOp_def)

lemma localOp_decodeFormat: "localOp (decodeFormat chunkSize)"
  unfolding decodeFormat_def
  by (intro localOp_andThen localOp_uint forward_uint localOp_skip)
     (simp add: localOp_fail localOp_andThen localOp_uint forward_uint localOp_skip)

lemma forward_decodeFormat: "forward (decodeFormat chunkSize)"
  unfolding forward_def
proof
  fix r
  obtain x r1 where d: "decodeFormat chunkSize r = (x, r1)"
    by (cases "decodeFormat chunkSize r")
  show "pos r \<le> pos (snd (decodeFormat chunkSize r))"
  proof (cases x)
    case (Inr f)
    with d decodeFormat_Inr [of chunkSize r f r1] show ?thesis by simp
  next
    case (Inl e)
    with d show ?thesis
      unfolding decodeFormat_def andThen_def uint16_def uint32_def fetch_def
      by (auto split: sum.splits prod.splits if_splits)
  qed
qed

lemma localOp_string: "localOp (string n)"
proof (induction n)
  case 0
  show ?case by (simp add: localOp_def)
next
  case (Suc n)
  have "string (Suc n) = andThen uint8 (\<lambda>c. andThen (string n) (\<lambda>data r. (Inr (char_of c # data), r)))"
    by (rule ext) (simp add: andThen_def split: prod.splits sum.splits)
  moreover have "forward (string n)" for n
    unfolding forward_def
  proof
    fix r show "pos r \<le> pos (snd (string n r))"
    proof (induction n arbitrary: r)
      case 0 show ?case by simp
    next
      case (Suc n)
      obtain x r1 where u: "uint8 r = (x, r1)" by (cases "uint8 r")
      from forwardD [OF forward_uint(1) u] Suc [of r1] u show ?case
        by (auto split: sum.splits prod.splits)
    qed
  qed
  ultimately show ?case
    using Suc by (simp add: localOp_andThen localOp_uint forward_uint localOp_def [of "\<lambda>r. (Inr _, r)"])
qed


lemma sameFrom_sym: "sameFrom q r r' \<Longrightarrow> sameFrom q r' r"
  by (simp add: sameFrom_def)

lemma sameFrom_pos: "sameFrom q r r' \<Longrightarrow> pos r' = pos r"
  by (simp add: sameFrom_def)

lemma localOp_pcmMethods:
  assumes "map_of pcmMethods name = Some read"
  shows "localOp read \<and> forward read"
proof -
  from assms have "(name, read) \<in> set pcmMethods" by (rule map_of_SomeD)
  then show ?thesis
    by (auto simp: pcmMethods_def pcm8_def pcm8s_def pcm16_def pcm16s_def pcm24_def pcm24s_def
        pcm32_def pcm32s_def pcm32f_def pcm64f_def getUint8_def getInt16_def getInt32_def
        localOp_fetch forward_fetch localGet_getUint localGet_getInt localGet_getFloat
        localGet_getUint24parts)
qed

lemma readChannels_local:
  "localOp read \<Longrightarrow> forward read \<Longrightarrow> sameFrom q r r' \<Longrightarrow> 0 \<le> q \<Longrightarrow> q \<le> pos r \<Longrightarrow>
   readChannels read n i ch chans r = (x, r1) \<Longrightarrow>
   \<exists>r1'. readChannels read n i ch chans r' = (x, r1') \<and> sameFrom q r1 r1' \<and> q \<le> pos r1"
proof (induction read n i ch chans r arbitrary: r' rule: readChannels.induct)
  case (1 read n i ch chans r)
  show ?case
  proof (cases "ch < n")
    case False
    with "1.prems" show ?thesis by (simp add: readChannels.simps)
  next
    case True
    obtain y r2 where rd: "read r = (y, r2)" by (cases "read r")
    from localOpD [OF "1.prems"(1,3,4,5) rd] obtain r2' where
      rd': "read r' = (y, r2')" and s2: "sameFrom q r2 r2'" by blast
    from forwardD [OF "1.prems"(2) rd] "1.prems"(5) have q2: "q \<le> pos r2" by simp
    show ?thesis
    proof (cases y)
      case (Inl e)
      with True rd rd' s2 q2 "1.prems"(6) show ?thesis
        by (simp add: readChannels.simps [of read n i ch chans])
    next
      case (Inr v)
      show ?thesis
      proof (cases "ch < length chans")
        case False
        with Inr True rd rd' s2 q2 "1.prems"(6) show ?thesis
          by (simp add: readChannels.simps [of read n i ch chans])
      next
        case l: True
        from Inr True l rd "1.prems"(6)
        have "readChannels read n i (ch + 1) (chans[ch := (chans ! ch)[i := v]]) r2 = (x, r1)"
          by (simp add: readChannels.simps [of read n i ch chans r])
        from "1.IH" [OF True rd [symmetric] Inr l "1.prems"(1,2) s2 "1.prems"(4) q2 this]
        obtain r1' where
          "readChannels read n i (ch + 1) (chans[ch := (chans ! ch)[i := v]]) r2' = (x, r1')"
          "sameFrom q r1 r1'" "q \<le> pos r1" by blast
        with Inr True l rd' show ?thesis
          by (simp add: readChannels.simps [of read n i ch chans r'])
      qed
    qed
  qed
qed

lemma readFrames_local_Some:
  assumes eq: "readFrames read n len i chans r = Some y"
    and rd: "localOp read" "forward read"
    and s: "sameFrom q r r'" and q: "0 \<le> q" "q \<le> pos r"
  shows "map_option fst (readFrames read n len i chans r') = Some (fst y)"
proof -
  have "\<forall>r'. localOp read \<longrightarrow> forward read \<longrightarrow> sameFrom q r r' \<longrightarrow> q \<le> pos r \<longrightarrow>
      map_option fst (readFrames read n len i chans r') = Some (fst y)"
  proof (rule readFrames.raw_induct
      [where P = "\<lambda>read n len i chans r y.
         \<forall>r'. localOp read \<longrightarrow> forward read \<longrightarrow> sameFrom q r r' \<longrightarrow> q \<le> pos r \<longrightarrow>
           map_option fst (readFrames read n len i chans r') = Some (fst y)", OF _ eq])
    fix loop read n len i chans r y
    assume IH: "\<And>read n len i chans r y. loop read n len i chans r = Some y \<Longrightarrow>
        \<forall>r'. localOp read \<longrightarrow> forward read \<longrightarrow> sameFrom q r r' \<longrightarrow> q \<le> pos r \<longrightarrow>
           map_option fst (readFrames read n len i chans r') = Some (fst y)"
      and eq: "(if jsless i len
        then case readChannels read n i 0 chans r of
             (Inl e, r') \<Rightarrow> Some (Inl e, r')
           | (Inr chans', r') \<Rightarrow> loop read n len (i + 1) chans' r'
        else Some (Inr chans, r)) = Some y"
    show "\<forall>r'. localOp read \<longrightarrow> forward read \<longrightarrow> sameFrom q r r' \<longrightarrow> q \<le> pos r \<longrightarrow>
           map_option fst (readFrames read n len i chans r') = Some (fst y)"
    proof (intro allI impI)
      fix r'
      assume l: "localOp read" and f: "forward read" and s: "sameFrom q r r'" and qr: "q \<le> pos r"
      show "map_option fst (readFrames read n len i chans r') = Some (fst y)"
      proof (cases "jsless i len")
        case False
        with eq show ?thesis by (subst readFrames.simps) auto
      next
        case True
        obtain res r1 where rc: "readChannels read n i 0 chans r = (res, r1)"
          by (cases "readChannels read n i 0 chans r")
        from readChannels_local [OF l f s q(1) qr rc] obtain r1' where
          rc': "readChannels read n i 0 chans r' = (res, r1')"
          and s1: "sameFrom q r1 r1'" and q1: "q \<le> pos r1" by blast
        show ?thesis
        proof (cases res)
          case (Inl e)
          with True rc eq have "y = (Inl e, r1)" by simp
          with True Inl rc' show ?thesis by (subst readFrames.simps) simp
        next
          case (Inr chans')
          with True rc eq have "loop read n len (i + 1) chans' r1 = Some y" by simp
          from IH [OF this] l f s1 q1
          have "map_option fst (readFrames read n len (i + 1) chans' r1') = Some (fst y)"
            by blast
          with True Inr rc' show ?thesis by (subst readFrames.simps) simp
        qed
      qed
    qed
  qed
  with rd s q show ?thesis by blast
qed

lemma readFrames_local:
  assumes rd: "localOp read" "forward read"
    and s: "sameFrom q r r'" and q: "0 \<le> q" "q \<le> pos r"
  shows "map_option fst (readFrames read n len i chans r') =
    map_option fst (readFrames read n len i chans r)"
proof (cases "readFrames read n len i chans r")
  case (Some y)
  from readFrames_local_Some [OF Some rd s q] Some show ?thesis by simp
next
  case None
  show ?thesis
  proof (cases "readFrames read n len i chans r'")
    case n': None
    with None show ?thesis by simp
  next
    case (Some y')
    from q(2) sameFrom_pos [OF s] have "q \<le> pos r'" by simp
    from readFrames_local_Some [OF Some rd sameFrom_sym [OF s] q(1) this] None
    show ?thesis by simp
  qed
qed

lemma decodeData_local:
  assumes s: "sameFrom q r r'" and q: "0 \<le> q" "q \<le> pos r"
  shows "map_option fst (decodeData chunkSize format opts r') =
    map_option fst (decodeData chunkSize format opts r)"
proof (cases format)
  case None
  then show ?thesis by (simp add: decodeData_def)
next
  case (Some f)
  from s have rm: "remain r' = remain r"
    by (simp add: remain_def sameFrom_def)
  define len where "len = frameLength (min (int chunkSize) (remain r)) f"
  show ?thesis
  proof (cases "newChannels (numberOfChannels f) len")
    case (Inl e)
    with Some rm show ?thesis unfolding len_def by (simp add: decodeData_def)
  next
    case (Inr chans)
    have "map_option fst (readPCM chans len f opts r') = map_option fst (readPCM chans len f opts r)"
    proof (cases "map_of pcmMethods (methodName f opts)")
      case None
      then show ?thesis by (simp add: readPCM_def)
    next
      case (Some read)
      from localOp_pcmMethods [OF Some] readFrames_local [OF _ _ s q, of read] Some
      show ?thesis by (simp add: readPCM_def)
    qed
    then have "rel_option (\<lambda>a b. fst a = fst b) (readPCM chans len f opts r')
        (readPCM chans len f opts r)"
      by (cases "readPCM chans len f opts r'"; cases "readPCM chans len f opts r") simp_all
    then have "map_option fst
        (case readPCM chans len f opts r' of
           None \<Rightarrow> None
         | Some (Inl e, r1) \<Rightarrow> Some (Inl e, r1)
         | Some (Inr chans', r1) \<Rightarrow>
             Some (Inr \<lparr>info_numberOfChannels = numberOfChannels f, info_length = len,
               info_sampleRate = sampleRate f, channelData = chans'\<rparr>, r1))
      = map_option fst
        (case readPCM chans len f opts r of
           None \<Rightarrow> None
         | Some (Inl e, r1) \<Rightarrow> Some (Inl e, r1)
         | Some (Inr chans', r1) \<Rightarrow>
             Some (Inr \<lparr>info_numberOfChannels = numberOfChannels f, info_length = len,
               info_sampleRate = sampleRate f, channelData = chans'\<rparr>, r1))"
      by (cases "readPCM chans len f opts r'"; cases "readPCM chans len f opts r")
         (auto split: sum.splits)
    with Some Inr rm show ?thesis
      unfolding len_def by (simp add: decodeData_def Let_def)
  qed
qed


lemma walk_local:
  assumes "sameFrom q r r'" "0 \<le> q" "q \<le> pos r"
  shows "map_option fst (walk opts format r') = map_option fst (walk opts format r)"
  using assms
proof (induction format r arbitrary: r' rule: loop_induct)
  case (tag_error format r e r1)
  from localOpD [OF localOp_string tag_error(2-4) tag_error(1)] obtain r1' where
    "string 4 r' = (Inl e, r1')" by blast
  with tag_error(1) show ?case by (simp add: walk_tag_error)
next
  case (size_error format r chunkType r1 e r2)
  from localOpD [OF localOp_string size_error(3-5) size_error(1)] obtain r1' where
    a: "string 4 r' = (Inr chunkType, r1')" and s1: "sameFrom q r1 r1'" by blast
  from string_Inr [OF size_error(1)] size_error(5) have q1: "q \<le> pos r1" by simp
  from localOpD [OF localOp_uint(3) s1 size_error(4) q1 size_error(2)] obtain r2' where
    "uint32 r1' = (Inl e, r2')" by blast
  with a size_error(1,2) show ?case by (simp add: walk_size_error)
next
  case (fmt_error format r r1 chunkSize r2 e r3)
  from localOpD [OF localOp_string fmt_error(4-6) fmt_error(1)] obtain r1' where
    a: "string 4 r' = (Inr ''fmt '', r1')" and s1: "sameFrom q r1 r1'" by blast
  from string_Inr [OF fmt_error(1)] fmt_error(6) have q1: "q \<le> pos r1" by simp
  from localOpD [OF localOp_uint(3) s1 fmt_error(5) q1 fmt_error(2)] obtain r2' where
    b: "uint32 r1' = (Inr chunkSize, r2')" and s2: "sameFrom q r2 r2'" by blast
  from uint32_Inr [OF fmt_error(2)] q1 have q2: "q \<le> pos r2" by simp
  from localOpD [OF localOp_decodeFormat s2 fmt_error(5) q2 fmt_error(3)] obtain r3' where
    "decodeFormat chunkSize r2' = (Inl e, r3')" by blast
  with a b fmt_error(1,2,3) show ?case by (simp add: walk_fmt_error)
next
  case (fmt format r r1 chunkSize r2 format' r3)
  from localOpD [OF localOp_string fmt(5-7) fmt(1)] obtain r1' where
    a: "string 4 r' = (Inr ''fmt '', r1')" and s1: "sameFrom q r1 r1'" by blast
  from string_Inr [OF fmt(1)] fmt(7) have q1: "q \<le> pos r1" by simp
  from localOpD [OF localOp_uint(3) s1 fmt(6) q1 fmt(2)] obtain r2' where
    b: "uint32 r1' = (Inr chunkSize, r2')" and s2: "sameFrom q r2 r2'" by blast
  from uint32_Inr [OF fmt(2)] q1 have q2: "q \<le> pos r2" by simp
  from localOpD [OF localOp_decodeFormat s2 fmt(6) q2 fmt(3)] obtain r3' where
    c: "decodeFormat chunkSize r2' = (Inr format', r3')" and s3: "sameFrom q r3 r3'" by blast
  from decodeFormat_Inr [OF fmt(3)] q2 have q3: "q \<le> pos r3" by simp
  from fmt.IH [OF s3 fmt(6) q3] show ?case
    by (simp add: walk_fmt [OF a b c] walk_fmt [OF fmt(1,2,3)])
next
  case (data format r r1 chunkSize r2)
  from localOpD [OF localOp_string data(3-5) data(1)] obtain r1' where
    a: "string 4 r' = (Inr ''data'', r1')" and s1: "sameFrom q r1 r1'" by blast
  from string_Inr [OF data(1)] data(5) have q1: "q \<le> pos r1" by simp
  from localOpD [OF localOp_uint(3) s1 data(4) q1 data(2)] obtain r2' where
    b: "uint32 r1' = (Inr chunkSize, r2')" and s2: "sameFrom q r2 r2'" by blast
  from uint32_Inr [OF data(2)] q1 have q2: "q \<le> pos r2" by simp
  from decodeData_local [OF s2 data(4) q2] show ?case
    by (simp add: walk_data [OF a b] walk_data [OF data(1,2)])
next
  case (other format r chunkType r1 chunkSize r2)
  from localOpD [OF localOp_string other(6-8) other(1)] obtain r1' where
    a: "string 4 r' = (Inr chunkType, r1')" and s1: "sameFrom q r1 r1'" by blast
  from string_Inr [OF other(1)] other(8) have q1: "q \<le> pos r1" by simp
  from localOpD [OF localOp_uint(3) s1 other(7) q1 other(2)] obtain r2' where
    b: "uint32 r1' = (Inr chunkSize, r2')" and s2: "sameFrom q r2 r2'" by blast
  from uint32_Inr [OF other(2)] q1 have q2: "q \<le> pos r2" by simp
  have s3: "sameFrom q (skip (int chunkSize) r2) (skip (int chunkSize) r2')"
    using s2 by (simp add: skip_def sameFrom_advance)
  have q3: "q \<le> pos (skip (int chunkSize) r2)"
    using q2 by (simp add: skip_def)
  from other.IH [OF s3 other(7) q3] show ?case
    by (simp add: walk_other [OF a b other(3,4)] walk_other [OF other(1,2,3,4)])
qed


lemma bytesAt_front:
  assumes "take m bs' = take m bs" "0 \<le> p" "p + int n \<le> int m"
  shows "bytesAt bs' p n = bytesAt bs p n"
proof -
  have "take n (drop (nat p) xs) = take n (drop (nat p) (take m xs))" for xs :: "byte list"
    using assms(2,3) by (simp add: drop_take min_def)
  from this [of bs'] this [of bs] assms(1) show ?thesis
    by (simp add: bytesAt_def)
qed

lemma getUint_front:
  assumes "length bs' = length bs" "take m bs' = take m bs" "p + int n \<le> int m"
  shows "getUint n bs' p = getUint n bs p"
proof (cases "inView bs p n")
  case True
  then have "0 \<le> p" by (simp add: inView_def)
  from bytesAt_front [OF assms(2) this assms(3)] assms(1) show ?thesis
    by (simp add: getUint_def inView_def)
next
  case False
  with assms(1) show ?thesis by (auto simp: getUint_def inView_def)
qed

lemma fetch_front:
  assumes "length bs = length (buf r)" "take m bs = take m (buf r)" "pos r + int n \<le> int m"
  shows "fetch (getUint n) w f (r\<lparr>buf := bs\<rparr>) =
    (fst (fetch (getUint n) w f r), (snd (fetch (getUint n) w f r))\<lparr>buf := bs\<rparr>)"
  using getUint_front [OF assms(1,2,3)]
  by (simp add: fetch_def advance_def split: sum.splits)

lemma string_front:
  assumes "length bs = length (buf r)" "take m bs = take m (buf r)" "pos r + int n \<le> int m"
  shows "string n (r\<lparr>buf := bs\<rparr>) = (fst (string n r), (snd (string n r))\<lparr>buf := bs\<rparr>)"
  using assms
proof (induction n arbitrary: r)
  case 0
  show ?case by simp
next
  case (Suc n)
  have u: "uint8 (r\<lparr>buf := bs\<rparr>) = (fst (uint8 r), (snd (uint8 r))\<lparr>buf := bs\<rparr>)"
    unfolding uint8_def getUint8_def
    using Suc.prems by (intro fetch_front [of bs r m]) simp_all
  obtain x r1 where ur: "uint8 r = (x, r1)" by (cases "uint8 r")
  show ?case
  proof (cases x)
    case (Inl e)
    with u ur show ?thesis by simp
  next
    case (Inr c)
    with ur uint8_Inr [of r c r1] have r1: "r1 = advance 1 r" by simp
    have "string n (r1\<lparr>buf := bs\<rparr>) = (fst (string n r1), (snd (string n r1))\<lparr>buf := bs\<rparr>)"
      using Suc.prems by (intro Suc.IH) (simp_all add: r1)
    with u ur Inr show ?thesis by (simp split: prod.splits sum.splits)
  qed
qed

text \<open>
  C7. A chunk whose tag is neither \<open>fmt \<close> nor \<open>data\<close> is stepped over: from any state
  of the loop, with the header read as tag \<open>chunkType\<close> and size \<open>chunkSize\<close>, the cursor
  is moved by \<open>chunkSize\<close>, odd or even, to \<open>pos r + 8 + chunkSize\<close>, and the next chunk
  header is read there, with \<open>format\<close> unchanged. What the loop returns is decided by that
  header: when it cannot be read, the error of the read; when it is a \<open>data\<close> chunk of
  size \<open>n\<close>, what \<open>decodeData\<close> returns for \<open>n\<close> with the cursor at
  \<open>pos r + 8 + chunkSize + 8\<close>; when it is a \<open>fmt \<close> chunk, the error of \<open>decodeFormat\<close> or the
  loop from the end of that chunk with the new format. The offsets the cursor took in this
  turn are those of the header alone: nothing of the body is read. Nor is it read later:
  with any other bytes in the place of the body, the bytes before it and after it being
  the same, the loop ends with the same result or does not end either.
\<close>

theorem other_chunk_skipped_by_declared_size:
  assumes "string 4 r = (Inr chunkType, r1)"
    and "uint32 r1 = (Inr chunkSize, r2)"
    and "chunkType \<noteq> ''fmt ''"
    and "chunkType \<noteq> ''data''"
  shows "walk opts format r = walk opts format (skip (int chunkSize) r2)
    \<and> turns format r = (format, r) # turns format (skip (int chunkSize) r2)
    \<and> buf (skip (int chunkSize) r2) = buf r
    \<and> pos (skip (int chunkSize) r2) = pos r + 8 + int chunkSize
    \<and> past (skip (int chunkSize) r2) =
        [pos r + 8, pos r + 4, pos r + 3, pos r + 2, pos r + 1, pos r] @ past r
    \<and> (\<forall>e r3. string 4 (skip (int chunkSize) r2) = (Inl e, r3) \<longrightarrow>
          walk opts format r = Some (Inl e, r3))
    \<and> (\<forall>next r3 e r4.
          string 4 (skip (int chunkSize) r2) = (Inr next, r3) \<and> uint32 r3 = (Inl e, r4) \<longrightarrow>
          walk opts format r = Some (Inl e, r4))
    \<and> (\<forall>r3 n r4.
          string 4 (skip (int chunkSize) r2) = (Inr ''data'', r3) \<and> uint32 r3 = (Inr n, r4) \<longrightarrow>
          walk opts format r = decodeData n format opts r4
          \<and> buf r4 = buf r \<and> pos r4 = pos r + 8 + int chunkSize + 8)
    \<and> (\<forall>r3 n r4 e r5.
          string 4 (skip (int chunkSize) r2) = (Inr ''fmt '', r3) \<and> uint32 r3 = (Inr n, r4)
          \<and> decodeFormat n r4 = (Inl e, r5) \<longrightarrow>
          walk opts format r = Some (Inl e, r5))
    \<and> (\<forall>r3 n r4 format' r5.
          string 4 (skip (int chunkSize) r2) = (Inr ''fmt '', r3) \<and> uint32 r3 = (Inr n, r4)
          \<and> decodeFormat n r4 = (Inr format', r5) \<longrightarrow>
          walk opts format r = walk opts (Some format') r5
          \<and> pos r5 = pos r + 8 + int chunkSize + 8 + int n)
    \<and> (\<forall>bs. length bs = length (buf r)
          \<and> take (nat (pos r + 8)) bs = take (nat (pos r + 8)) (buf r)
          \<and> drop (nat (pos r + 8 + int chunkSize)) bs
              = drop (nat (pos r + 8 + int chunkSize)) (buf r)
        \<longrightarrow> map_option fst (walk opts format (r\<lparr>buf := bs\<rparr>))
              = map_option fst (walk opts format r))"
proof -
  have w: "walk opts format r = walk opts format (skip (int chunkSize) r2)"
    using assms by (rule walk_other)
  have t: "turns format r = (format, r) # turns format (skip (int chunkSize) r2)"
    using assms by (rule turns_other)
  have r1: "r1 = advance 1 (advance 1 (advance 1 (advance 1 r)))"
    using assms(1) by (rule string4_Inr)
  have r2: "r2 = advance 4 r1"
    using uint32_Inr [OF assms(2)] by simp
  have p0: "0 \<le> pos r"
    using string_Inr [OF assms(1)] by (simp add: inView_def)
  have sk: "buf (skip (int chunkSize) r2) = buf r"
    "pos (skip (int chunkSize) r2) = pos r + 8 + int chunkSize"
    "past (skip (int chunkSize) r2) =
        [pos r + 8, pos r + 4, pos r + 3, pos r + 2, pos r + 1, pos r] @ past r"
    by (simp_all add: r1 r2 skip_def)
  have e1: "\<forall>e r3. string 4 (skip (int chunkSize) r2) = (Inl e, r3) \<longrightarrow>
          walk opts format r = Some (Inl e, r3)"
    by (simp add: w walk_tag_error)
  have e2: "\<forall>next r3 e r4.
          string 4 (skip (int chunkSize) r2) = (Inr next, r3) \<and> uint32 r3 = (Inl e, r4) \<longrightarrow>
          walk opts format r = Some (Inl e, r4)"
    by (simp add: w walk_size_error)
  have d: "\<forall>r3 n r4.
          string 4 (skip (int chunkSize) r2) = (Inr ''data'', r3) \<and> uint32 r3 = (Inr n, r4) \<longrightarrow>
          walk opts format r = decodeData n format opts r4
          \<and> buf r4 = buf r \<and> pos r4 = pos r + 8 + int chunkSize + 8"
  proof (intro allI impI, elim conjE)
    fix r3 n r4
    assume that: "string 4 (skip (int chunkSize) r2) = (Inr ''data'', r3)" "uint32 r3 = (Inr n, r4)"
    from string_Inr [OF that(1)] uint32_Inr [OF that(2)] sk
    show "walk opts format r = decodeData n format opts r4
      \<and> buf r4 = buf r \<and> pos r4 = pos r + 8 + int chunkSize + 8"
      by (simp add: w walk_data [OF that])
  qed
  have f1: "\<forall>r3 n r4 e r5.
          string 4 (skip (int chunkSize) r2) = (Inr ''fmt '', r3) \<and> uint32 r3 = (Inr n, r4)
          \<and> decodeFormat n r4 = (Inl e, r5) \<longrightarrow>
          walk opts format r = Some (Inl e, r5)"
    by (simp add: w walk_fmt_error)
  have f2: "\<forall>r3 n r4 format' r5.
          string 4 (skip (int chunkSize) r2) = (Inr ''fmt '', r3) \<and> uint32 r3 = (Inr n, r4)
          \<and> decodeFormat n r4 = (Inr format', r5) \<longrightarrow>
          walk opts format r = walk opts (Some format') r5
          \<and> pos r5 = pos r + 8 + int chunkSize + 8 + int n"
  proof (intro allI impI, elim conjE)
    fix r3 n r4 format' r5
    assume that: "string 4 (skip (int chunkSize) r2) = (Inr ''fmt '', r3)"
      "uint32 r3 = (Inr n, r4)" "decodeFormat n r4 = (Inr format', r5)"
    from string_Inr [OF that(1)] uint32_Inr [OF that(2)] decodeFormat_Inr [OF that(3)] sk
    show "walk opts format r = walk opts (Some format') r5
      \<and> pos r5 = pos r + 8 + int chunkSize + 8 + int n"
      by (simp add: w walk_fmt [OF that])
  qed
  have "map_option fst (walk opts format (r\<lparr>buf := bs\<rparr>)) = map_option fst (walk opts format r)"
    if len: "length bs = length (buf r)"
      and front: "take (nat (pos r + 8)) bs = take (nat (pos r + 8)) (buf r)"
      and rear: "drop (nat (pos r + 8 + int chunkSize)) bs
        = drop (nat (pos r + 8 + int chunkSize)) (buf r)"
    for bs
  proof -
    have a: "string 4 (r\<lparr>buf := bs\<rparr>) = (Inr chunkType, r1\<lparr>buf := bs\<rparr>)"
      using string_front [OF len front, of 4] p0 assms(1) by simp
    have "uint32 (r1\<lparr>buf := bs\<rparr>) = (fst (uint32 r1), (snd (uint32 r1))\<lparr>buf := bs\<rparr>)"
      unfolding uint32_def getUint32_def
      using len front p0 by (intro fetch_front [of bs r1 "nat (pos r + 8)"]) (simp_all add: r1)
    with assms(2) have b: "uint32 (r1\<lparr>buf := bs\<rparr>) = (Inr chunkSize, r2\<lparr>buf := bs\<rparr>)"
      by simp
    define q where "q = pos r + 8 + int chunkSize"
    have q: "0 \<le> q" "q \<le> pos (skip (int chunkSize) r2)"
      using p0 by (simp_all add: q_def r1 r2 skip_def)
    have "bs ! k = buf r ! k" if "nat q \<le> k" "k < length (buf r)" for k
    proof -
      from that obtain j where k: "k = nat q + j" using le_Suc_ex by blast
      from rear have "drop (nat q) bs ! j = drop (nat q) (buf r) ! j"
        by (simp add: q_def)
      with that len show ?thesis
        by (simp add: k)
    qed
    then have "sameFrom q (skip (int chunkSize) r2) (skip (int chunkSize) (r2\<lparr>buf := bs\<rparr>))"
      using len by (simp add: sameFrom_def skip_def r1 r2 advance_def)
    from walk_local [OF this q, of opts format]
    show ?thesis
      by (simp add: walk_other [OF a b assms(3,4)] walk_other [OF assms])
  qed
  then have ind: "\<forall>bs. length bs = length (buf r)
          \<and> take (nat (pos r + 8)) bs = take (nat (pos r + 8)) (buf r)
          \<and> drop (nat (pos r + 8 + int chunkSize)) bs
              = drop (nat (pos r + 8 + int chunkSize)) (buf r)
        \<longrightarrow> map_option fst (walk opts format (r\<lparr>buf := bs\<rparr>))
              = map_option fst (walk opts format r)"
    by blast
  show ?thesis
    by (intro conjI) (fact w t sk e1 e2 d f1 f2 ind)+
qed


theorem other_chunk_skipped_by_declared_size_witness:
  "walk \<lparr>symmetric = None\<rparr>
     (Some \<lparr>formatId = 1, floatingPoint = False, numberOfChannels = 1, sampleRate = 8000,
            byteRate = 16000, blockSize = 2, bitDepth = 16\<rparr>)
     \<lparr>buf = junkWav, pos = 36, past = []\<rparr>
   = Some (Inr \<lparr>info_numberOfChannels = 1, info_length = Num 2, info_sampleRate = 8000,
                channelData = [[Scaled (1 / 32767), Scaled (- 1 / 32768)]]\<rparr>,
           \<lparr>buf = junkWav, pos = 59,
            past = [57, 55, 51, 50, 49, 48, 47, 44, 40, 39, 38, 37, 36]\<rparr>)
   \<and> decodeSync junkWav None =
       Some (Inr \<lparr>info_numberOfChannels = 1, info_length = Num 2, info_sampleRate = 8000,
                  channelData = [[Scaled (1 / 32767), Scaled (- 1 / 32768)]]\<rparr>)
   \<and> map_option fst (walk \<lparr>symmetric = None\<rparr>
     (Some \<lparr>formatId = 1, floatingPoint = False, numberOfChannels = 1, sampleRate = 8000,
            byteRate = 16000, blockSize = 2, bitDepth = 16\<rparr>)
     \<lparr>buf = take 44 junkWav @ [1, 2, 3] @ drop 47 junkWav, pos = 36, past = []\<rparr>)
   = map_option fst (walk \<lparr>symmetric = None\<rparr>
     (Some \<lparr>formatId = 1, floatingPoint = False, numberOfChannels = 1, sampleRate = 8000,
            byteRate = 16000, blockSize = 2, bitDepth = 16\<rparr>)
     \<lparr>buf = junkWav, pos = 36, past = []\<rparr>)"
proof -
  have "walk \<lparr>symmetric = None\<rparr>
     (Some \<lparr>formatId = 1, floatingPoint = False, numberOfChannels = 1, sampleRate = 8000,
            byteRate = 16000, blockSize = 2, bitDepth = 16\<rparr>)
     \<lparr>buf = junkWav, pos = 36, past = []\<rparr>
   = Some (Inr \<lparr>info_numberOfChannels = 1, info_length = Num 2, info_sampleRate = 8000,
                channelData = [[Scaled (1 / 32767), Scaled (- 1 / 32768)]]\<rparr>,
           \<lparr>buf = junkWav, pos = 59,
            past = [57, 55, 51, 50, 49, 48, 47, 44, 40, 39, 38, 37, 36]\<rparr>)"
    using other_chunk_skipped_by_declared_size
      [of "\<lparr>buf = junkWav, pos = 36, past = []\<rparr>" "''JUNK''"
          "\<lparr>buf = junkWav, pos = 40, past = [39, 38, 37, 36]\<rparr>" 3
          "\<lparr>buf = junkWav, pos = 44, past = [40, 39, 38, 37, 36]\<rparr>"
          "\<lparr>symmetric = None\<rparr>"
          "Some \<lparr>formatId = 1, floatingPoint = False, numberOfChannels = 1, sampleRate = 8000,
            byteRate = 16000, blockSize = 2, bitDepth = 16\<rparr>",
        THEN conjunct2, THEN conjunct2, THEN conjunct2, THEN conjunct2, THEN conjunct2,
        THEN conjunct2, THEN conjunct2, THEN conjunct1]
    by (simp add: junkWav_def eval_reader eval_data eval_pcm replicate_numeral floor_rat_numeral
        newChannels_numeral)
  moreover have "decodeSync junkWav None =
       Some (Inr \<lparr>info_numberOfChannels = 1, info_length = Num 2, info_sampleRate = 8000,
                  channelData = [[Scaled (1 / 32767), Scaled (- 1 / 32768)]]\<rparr>)"
    by (simp add: decodeSync_def eval_all junkWav_def)
  moreover have "map_option fst (walk \<lparr>symmetric = None\<rparr>
     (Some \<lparr>formatId = 1, floatingPoint = False, numberOfChannels = 1, sampleRate = 8000,
            byteRate = 16000, blockSize = 2, bitDepth = 16\<rparr>)
     \<lparr>buf = take 44 junkWav @ [1, 2, 3] @ drop 47 junkWav, pos = 36, past = []\<rparr>)
   = map_option fst (walk \<lparr>symmetric = None\<rparr>
     (Some \<lparr>formatId = 1, floatingPoint = False, numberOfChannels = 1, sampleRate = 8000,
            byteRate = 16000, blockSize = 2, bitDepth = 16\<rparr>)
     \<lparr>buf = junkWav, pos = 36, past = []\<rparr>)"
    using other_chunk_skipped_by_declared_size
      [of "\<lparr>buf = junkWav, pos = 36, past = []\<rparr>" "''JUNK''"
          "\<lparr>buf = junkWav, pos = 40, past = [39, 38, 37, 36]\<rparr>" 3
          "\<lparr>buf = junkWav, pos = 44, past = [40, 39, 38, 37, 36]\<rparr>"
          "\<lparr>symmetric = None\<rparr>"
          "Some \<lparr>formatId = 1, floatingPoint = False, numberOfChannels = 1, sampleRate = 8000,
            byteRate = 16000, blockSize = 2, bitDepth = 16\<rparr>",
        THEN conjunct2, THEN conjunct2, THEN conjunct2, THEN conjunct2, THEN conjunct2,
        THEN conjunct2, THEN conjunct2, THEN conjunct2, THEN conjunct2, THEN conjunct2,
        THEN spec, of "take 44 junkWav @ [1, 2, 3] @ drop 47 junkWav"]
    by (simp add: junkWav_def eval_reader)
  ultimately show ?thesis by simp
qed

text \<open>
  C5. When the loop of \<open>decodeSync\<close> comes to a \<open>fmt \<close> chunk whose format tag is neither
  1 nor 3, \<open>decodeSync\<close> fails with \<open>UnsupportedFormat\<close>. The cursor is left two bytes
  into the chunk body, which starts at \<open>pos r + 8\<close>: only the tag was read, the rest of
  the body is not consumed, this turn is the last one of the loop (no later chunk is
  read), and the caller gets the error and no audio.
\<close>

theorem unsupported_format_fails_at_once:
  assumes "riffHeader (createReader buffer) = (Inr (), r0)"
    and "(format, r) \<in> set (turns None r0)"
    and "string 4 r = (Inr ''fmt '', r1)"
    and "uint32 r1 = (Inr chunkSize, r2)"
    and "uint16 r2 = (Inr fid, r3)"
    and "fid \<noteq> 1"
    and "fid \<noteq> 3"
  shows "decodeSync_run buffer opts = Some (Inl (UnsupportedFormat fid), r3)
    \<and> decodeSync buffer opts = Some (Inl (UnsupportedFormat fid))
    \<and> pos r3 = pos r + 8 + 2
    \<and> turns format r = [(format, r)]"
proof -
  have f: "formats fid = None"
    using assms(6,7) by (simp add: formats_def)
  have d: "decodeFormat chunkSize r2 = (Inl (UnsupportedFormat fid), r3)"
    using assms(5) f by (simp add: decodeFormat_def andThen_def)
  have w: "walk opts' format r = Some (Inl (UnsupportedFormat fid), r3)" for opts'
    using assms(3,4) d by (subst walk.simps) simp
  have t: "turns format r = [(format, r)]"
    using assms(3,4) d by (subst turns.simps) simp
  have run: "decodeSync_run buffer opts = Some (Inl (UnsupportedFormat fid), r3)"
    using walk_turns [OF assms(2)] w by (simp add: decodeSync_run_walk [OF assms(1)])
  have r1: "r1 = advance 1 (advance 1 (advance 1 (advance 1 r)))"
    using assms(3) by (rule string4_Inr)
  have p: "pos r3 = pos r + 8 + 2"
    using uint32_Inr [OF assms(4)] uint16_Inr [OF assms(5)] r1 by simp
  show ?thesis
    using run t p by (simp add: decodeSync_def)
qed

theorem unsupported_format_fails_at_once_witness:
  "decodeSync adpcmWav None = Some (Inl (UnsupportedFormat 2))
   \<and> decodeSync_run adpcmWav None =
       Some (Inl (UnsupportedFormat 2),
             \<lparr>buf = adpcmWav, pos = 31,
              past = [29, 25, 24, 23, 22, 21, 20, 16, 15, 14, 13, 12, 11, 10, 9, 8, 4, 3, 2, 1, 0]\<rparr>)"
  using unsupported_format_fails_at_once
    [of adpcmWav
        "\<lparr>buf = adpcmWav, pos = 12, past = [11, 10, 9, 8, 4, 3, 2, 1, 0]\<rparr>"
        None
        "\<lparr>buf = adpcmWav, pos = 21, past = [20, 16, 15, 14, 13, 12, 11, 10, 9, 8, 4, 3, 2, 1, 0]\<rparr>"
        "\<lparr>buf = adpcmWav, pos = 25,
          past = [24, 23, 22, 21, 20, 16, 15, 14, 13, 12, 11, 10, 9, 8, 4, 3, 2, 1, 0]\<rparr>"
        16
        "\<lparr>buf = adpcmWav, pos = 29,
          past = [25, 24, 23, 22, 21, 20, 16, 15, 14, 13, 12, 11, 10, 9, 8, 4, 3, 2, 1, 0]\<rparr>"
        2
        "\<lparr>buf = adpcmWav, pos = 31,
          past = [29, 25, 24, 23, 22, 21, 20, 16, 15, 14, 13, 12, 11, 10, 9, 8, 4, 3, 2, 1, 0]\<rparr>"
        None]
  by (simp add: eval_reader eval_sync adpcmWav_def)

section \<open>The option \<open>symmetric\<close>\<close>

lemma decodeData_opts:
  assumes "\<And>fm. format = Some fm \<Longrightarrow> methodName fm o1 = methodName fm o2"
  shows "decodeData chunkSize format o1 r = decodeData chunkSize format o2 r"
proof (cases format)
  case None
  then show ?thesis by (simp add: decodeData_def)
next
  case (Some fm)
  with assms have "methodName fm o1 = methodName fm o2" by simp
  then have "readPCM chans len fm o1 r = readPCM chans len fm o2 r" for chans len
    by (simp add: readPCM_def)
  with Some show ?thesis by (simp add: decodeData_def Let_def split: sum.splits)
qed

lemma walk_opts:
  assumes "\<forall>(f, r') \<in> set (turns format r). \<forall>fm. f = Some fm \<longrightarrow> methodName fm o1 = methodName fm o2"
  shows "walk o1 format r = walk o2 format r"
  using assms
proof (induction format r rule: loop_induct)
  case (tag_error format r e r1)
  then show ?case by (simp add: walk_tag_error)
next
  case (size_error format r chunkType r1 e r2)
  then show ?case by (simp add: walk_size_error)
next
  case (fmt_error format r r1 chunkSize r2 e r3)
  then show ?case by (simp add: walk_fmt_error)
next
  case (fmt format r r1 chunkSize r2 format' r3)
  then show ?case by (simp add: turns_fmt walk_fmt)
next
  case (data format r r1 chunkSize r2)
  have "decodeData chunkSize format o1 r2 = decodeData chunkSize format o2 r2"
    using data by (intro decodeData_opts) (simp add: turns_data)
  with data show ?case by (simp add: walk_data)
next
  case (other format r chunkType r1 chunkSize r2)
  then show ?case by (simp add: turns_other walk_other)
qed

lemma decodeFormat_floatingPoint:
  "decodeFormat chunkSize r = (Inr f, r') \<Longrightarrow> floatingPoint f = (formatId f = 3)"
  unfolding decodeFormat_def
  by (auto dest!: andThen_Inr split: if_splits)

lemma turns_parsed:
  assumes "\<forall>fm. format = Some fm \<longrightarrow> floatingPoint fm = (formatId fm = 3)"
  shows "\<forall>(f, r') \<in> set (turns format r). \<forall>fm. f = Some fm \<longrightarrow> floatingPoint fm = (formatId fm = 3)"
  using assms
proof (induction format r rule: loop_induct)
  case (fmt format r r1 chunkSize r2 format' r3)
  then show ?case by (simp add: turns_fmt decodeFormat_floatingPoint)
qed (simp_all add: turns_tag_error turns_size_error turns_fmt_error turns_data turns_other)

text \<open>
  C8. When every \<open>fmt \<close> chunk that a call of \<open>decodeSync\<close> parses declares the format
  tag 3, that is when \<open>format\<close> holds a descriptor with \<open>formatId = 3\<close> whenever it holds
  one, the option \<open>symmetric\<close> has no effect: the call returns the same audio, or fails
  with the same error, for any two values of \<open>opts\<close>, among them \<open>symmetric = true\<close> and
  \<open>symmetric = false\<close>.
\<close>

theorem symmetric_has_no_effect_on_float:
  assumes "\<forall>(f, r) \<in> set (loopStates buffer). \<forall>fm. f = Some fm \<longrightarrow> formatId fm = 3"
  shows "decodeSync buffer (Some \<lparr>symmetric = Some True\<rparr>) =
         decodeSync buffer (Some \<lparr>symmetric = Some False\<rparr>)
    \<and> decodeSync buffer opts1 = decodeSync buffer opts2"
proof -
  have "decodeSync_run buffer o1 = decodeSync_run buffer o2" for o1 o2
  proof (cases "riffHeader (createReader buffer)")
    case (Pair x r0)
    show ?thesis
    proof (cases x)
      case (Inl e)
      with Pair show ?thesis by (simp add: decodeSync_run_def)
    next
      case (Inr ok)
      let ?o1 = "case o1 of None \<Rightarrow> \<lparr>symmetric = None\<rparr> | Some given \<Rightarrow> given"
      let ?o2 = "case o2 of None \<Rightarrow> \<lparr>symmetric = None\<rparr> | Some given \<Rightarrow> given"
      have ls: "loopStates buffer = turns None r0"
        using Pair Inr by (simp add: loopStates_def)
      have fp: "\<forall>(f, r) \<in> set (turns None r0).
          \<forall>fm. f = Some fm \<longrightarrow> floatingPoint fm = (formatId fm = 3)"
        by (rule turns_parsed) simp
      have "walk ?o1 None r0 = walk ?o2 None r0"
      proof (rule walk_opts, clarify)
        fix f r fm
        assume "(Some fm, r) \<in> set (turns None r0)"
        with assms ls fp have "floatingPoint fm" by fastforce
        then show "methodName fm ?o1 = methodName fm ?o2"
          by (simp add: methodName_def decoderOption_def)
      qed
      with Pair Inr show ?thesis by (simp add: decodeSync_run_def)
    qed
  qed
  from this [of "Some \<lparr>symmetric = Some True\<rparr>" "Some \<lparr>symmetric = Some False\<rparr>"]
    this [of opts1 opts2]
  show ?thesis by (simp add: decodeSync_def)
qed

theorem symmetric_has_no_effect_on_float_witness:
  "decodeSync float32Wav (Some \<lparr>symmetric = Some True\<rparr>) =
   decodeSync float32Wav (Some \<lparr>symmetric = Some False\<rparr>)
   \<and> decodeSync float32Wav (Some \<lparr>symmetric = Some True\<rparr>) =
       Some (Inr \<lparr>info_numberOfChannels = 1, info_length = Num 1, info_sampleRate = 8000,
                  channelData = [[Float32 0x3F800000]]\<rparr>)"
proof -
  have "\<forall>(f, r) \<in> set (loopStates float32Wav). \<forall>fm. f = Some fm \<longrightarrow> formatId fm = 3"
    by (simp add: loopStates_def eval_all float32Wav_def)
  from symmetric_has_no_effect_on_float [OF this]
  have "decodeSync float32Wav (Some \<lparr>symmetric = Some True\<rparr>) =
        decodeSync float32Wav (Some \<lparr>symmetric = Some False\<rparr>)"
    by simp
  moreover have "decodeSync float32Wav (Some \<lparr>symmetric = Some True\<rparr>) =
       Some (Inr \<lparr>info_numberOfChannels = 1, info_length = Num 1, info_sampleRate = 8000,
                  channelData = [[Float32 0x3F800000]]\<rparr>)"
    by (simp add: decodeSync_def eval_all float32Wav_def)
  ultimately show ?thesis by simp
qed

section \<open>Calls of \<open>decodeSync\<close> in a program\<close>

text \<open>
  Every operation of a call works on the scope of the reader that the call has made,
  as the operation of the same name above works on a cursor, and leaves the other
  scopes, \<open>formats\<close> and \<open>global.Buffer\<close> as they are.
\<close>

lemma put_simps [simp]:
  "scopes (put a r w) = (scopes w)[a := r]"
  "formatsObject (put a r w) = formatsObject w"
  "globalBuffer (put a r w) = globalBuffer w"
  "intact (put a r w) = intact w"
  "put a r' (put a r w) = put a r' w"
  by (simp_all add: put_def intact_def)

lemma put_same [simp]: "put a (scopes w ! a) w = w"
  by (simp add: put_def)





























section \<open>The offset of the cursor\<close>

lemma keepsOrderD:
  "keepsOrder m \<Longrightarrow> m r = (res, r') \<Longrightarrow> sorted (offsets r) \<Longrightarrow> sorted (offsets r')"
  by (auto simp: keepsOrder_def)

lemma sorted_offsets_advance:
  assumes "sorted (offsets r)" "0 \<le> n"
  shows "sorted (offsets (advance n r))"
proof -
  have "\<forall>x \<in> set (past r). x \<le> pos r"
    using assms(1) by (auto simp: offsets_def sorted_append)
  with assms show ?thesis
    by (auto simp: offsets_def sorted_append)
qed

lemma keepsOrder_fetch: "0 \<le> w \<Longrightarrow> keepsOrder (fetch get w f)"
  by (auto simp: keepsOrder_def fetch_def sorted_offsets_advance split: sum.splits)

lemma keepsOrder_andThen:
  assumes "keepsOrder m" "\<And>x. keepsOrder (f x)"
  shows "keepsOrder (andThen m f)"
  unfolding keepsOrder_def
proof (intro allI impI)
  fix r
  assume s: "sorted (offsets r)"
  obtain res r1 where m: "m r = (res, r1)" by (cases "m r")
  from keepsOrderD [OF assms(1) m s] have s1: "sorted (offsets r1)" .
  show "sorted (offsets (snd (andThen m f r)))"
  proof (cases res)
    case (Inl e)
    with m s1 show ?thesis by (simp add: andThen_def)
  next
    case (Inr x)
    from assms(2) [of x] s1 have "sorted (offsets (snd (f x r1)))"
      by (simp add: keepsOrder_def)
    with m Inr show ?thesis by (simp add: andThen_def)
  qed
qed

lemma keepsOrder_uint [simp]: "keepsOrder uint8" "keepsOrder uint16" "keepsOrder uint32"
  by (simp_all add: uint8_def uint16_def uint32_def keepsOrder_fetch)

lemma keepsOrder_string: "keepsOrder (string n)"
proof (induction n)
  case 0
  show ?case by (simp add: keepsOrder_def)
next
  case (Suc n)
  show ?case
    unfolding keepsOrder_def
  proof (intro allI impI)
    fix r
    assume s: "sorted (offsets r)"
    obtain res r1 where u: "uint8 r = (res, r1)" by (cases "uint8 r")
    have s1: "sorted (offsets r1)"
      using keepsOrderD [OF keepsOrder_uint(1) u s] .
    show "sorted (offsets (snd (string (Suc n) r)))"
    proof (cases res)
      case (Inl e)
      with u s1 show ?thesis by simp
    next
      case (Inr c)
      obtain res2 r2 where st: "string n r1 = (res2, r2)" by (cases "string n r1")
      from keepsOrderD [OF Suc st s1] have "sorted (offsets r2)" .
      with u Inr st show ?thesis by (cases res2) simp_all
    qed
  qed
qed

lemma keepsOrder_decodeFormat:
  assumes "16 \<le> chunkSize"
  shows "keepsOrder (decodeFormat chunkSize)"
  unfolding decodeFormat_def
proof (intro keepsOrder_andThen keepsOrder_uint)
  fix formatId numberOfChannels sampleRate byteRate blockSize bitDepth
  show "keepsOrder
     (if formats formatId = None then \<lambda>r. (Inl (UnsupportedFormat formatId), r)
      else andThen uint16 (\<lambda>numberOfChannels. andThen uint32 (\<lambda>sampleRate.
           andThen uint32 (\<lambda>byteRate. andThen uint16 (\<lambda>blockSize.
           andThen uint16 (\<lambda>bitDepth r.
             (Inr \<lparr>formatId = formatId, floatingPoint = formatId = 3,
                    numberOfChannels = numberOfChannels, sampleRate = sampleRate,
                    byteRate = byteRate, blockSize = blockSize, bitDepth = bitDepth\<rparr>,
              skip (int chunkSize - 16) r)))))))"
  proof (cases "formats formatId = None")
    case True
    then show ?thesis by (simp add: keepsOrder_def)
  next
    case False
    have "keepsOrder (\<lambda>r. (Inr (x::Format), skip (int chunkSize - 16) r))" for x
      using assms by (simp add: keepsOrder_def skip_def sorted_offsets_advance)
    with False show ?thesis
      by (auto intro!: keepsOrder_andThen)
  qed
qed

lemma keepsOrder_pcmMethods:
  assumes "map_of pcmMethods name = Some read"
  shows "keepsOrder read"
proof -
  from assms have "(name, read) \<in> set pcmMethods" by (rule map_of_SomeD)
  then show ?thesis
    by (auto simp: pcmMethods_def eval_pcm keepsOrder_fetch)
qed

lemma readChannels_order:
  "keepsOrder read \<Longrightarrow> sorted (offsets r) \<Longrightarrow>
   sorted (offsets (snd (readChannels read n i ch chans r)))"
proof (induction read n i ch chans r rule: readChannels.induct)
  case (1 read n i ch chans r)
  note k = "1.prems"(1) and s = "1.prems"(2)
  show ?case
  proof (cases "ch < n")
    case False
    with s show ?thesis by (subst readChannels.simps) simp
  next
    case True
    obtain res r1 where rd: "read r = (res, r1)" by (cases "read r")
    have s1: "sorted (offsets r1)"
      using keepsOrderD [OF k rd s] .
    show ?thesis
    proof (cases res)
      case (Inl e)
      with True rd s1 show ?thesis by (subst readChannels.simps) simp
    next
      case (Inr v)
      show ?thesis
      proof (cases "ch < length chans")
        case False
        with True rd Inr s1 show ?thesis by (subst readChannels.simps) simp
      next
        case inside: True
        have "sorted (offsets (snd (readChannels read n i (ch + 1)
                (chans[ch := (chans ! ch)[i := v]]) r1)))"
          using "1.IH" [OF True rd [symmetric] Inr inside k s1] .
        with True rd Inr inside show ?thesis by (subst readChannels.simps) simp
      qed
    qed
  qed
qed

lemma readFrames_order:
  assumes "readFrames read n len i chans r = Some y"
    and "keepsOrder read" "sorted (offsets r)"
  shows "sorted (offsets (snd y))"
proof -
  have "keepsOrder read \<longrightarrow> sorted (offsets r) \<longrightarrow> sorted (offsets (snd y))"
  proof (rule readFrames.raw_induct
      [where P = "\<lambda>read n len i chans r y.
         keepsOrder read \<longrightarrow> sorted (offsets r) \<longrightarrow> sorted (offsets (snd y))", OF _ assms(1)])
    fix loop read n len i chans r y
    assume IH: "\<And>read n len i chans r y. loop read n len i chans r = Some y \<Longrightarrow>
        keepsOrder read \<longrightarrow> sorted (offsets r) \<longrightarrow> sorted (offsets (snd y))"
      and eq: "(if jsless i len
        then case readChannels read n i 0 chans r of
             (Inl e, r') \<Rightarrow> Some (Inl e, r')
           | (Inr chans', r') \<Rightarrow> loop read n len (i + 1) chans' r'
        else Some (Inr chans, r)) = Some y"
    show "keepsOrder read \<longrightarrow> sorted (offsets r) \<longrightarrow> sorted (offsets (snd y))"
    proof (intro impI)
      assume k: "keepsOrder read" and s: "sorted (offsets r)"
      show "sorted (offsets (snd y))"
      proof (cases "jsless i len")
        case False
        with eq s show ?thesis by auto
      next
        case True
        obtain res r1 where rc: "readChannels read n i 0 chans r = (res, r1)"
          by (cases "readChannels read n i 0 chans r")
        from readChannels_order [OF k s, of n i 0 chans] rc
        have s1: "sorted (offsets r1)" by simp
        show ?thesis
        proof (cases res)
          case (Inl e)
          with True rc eq have "y = (Inl e, r1)" by simp
          with s1 show ?thesis by simp
        next
          case (Inr chans')
          with True rc eq have "loop read n len (i + 1) chans' r1 = Some y" by simp
          from IH [OF this] k s1 show ?thesis by simp
        qed
      qed
    qed
  qed
  with assms(2,3) show ?thesis by simp
qed

lemma decodeData_order:
  assumes "decodeData chunkSize format opts r = Some (res, r')" "sorted (offsets r)"
  shows "sorted (offsets r')"
proof (cases format)
  case None
  with assms show ?thesis by (simp add: decodeData_def)
next
  case (Some fm)
  let ?len = "frameLength (min (int chunkSize) (remain r)) fm"
  show ?thesis
  proof (cases "newChannels (numberOfChannels fm) ?len")
    case (Inl e)
    with Some assms show ?thesis by (simp add: decodeData_def)
  next
    case (Inr chans)
    show ?thesis
    proof (cases "map_of pcmMethods (methodName fm opts)")
      case None
      with Some Inr assms show ?thesis by (simp add: decodeData_def readPCM_def)
    next
      case some: (Some read)
      from Some Inr some assms(1) obtain y where
        rf: "readFrames read (numberOfChannels fm) ?len 0 chans r = Some y" and "snd y = r'"
        by (auto simp: decodeData_def readPCM_def Let_def split: option.splits sum.splits)
      with readFrames_order [OF rf keepsOrder_pcmMethods [OF some] assms(2)]
      show ?thesis by simp
    qed
  qed
qed

lemma walk_order:
  assumes "walk opts format r = Some (res, r')"
    and "\<forall>(f, r'') \<in> set (turns format r). \<forall>n. fmtSize r'' = Some n \<longrightarrow> 16 \<le> n"
    and "sorted (offsets r)"
  shows "sorted (offsets r')"
  using assms
proof (induction format r rule: loop_induct)
  case (tag_error format r e r1)
  with keepsOrderD [OF keepsOrder_string tag_error(1)] show ?case
    by (simp add: walk_tag_error)
next
  case (size_error format r chunkType r1 e r2)
  from keepsOrderD [OF keepsOrder_string size_error(1)] size_error
  have "sorted (offsets r1)" by simp
  with keepsOrderD [OF keepsOrder_uint(3) size_error(2)] size_error show ?case
    by (simp add: walk_size_error)
next
  case (fmt_error format r r1 chunkSize r2 e r3)
  from keepsOrderD [OF keepsOrder_string fmt_error(1)] fmt_error
  have "sorted (offsets r1)" by simp
  with keepsOrderD [OF keepsOrder_uint(3) fmt_error(2)]
  have s2: "sorted (offsets r2)" by simp
  have "fmtSize r = Some chunkSize"
    using fmt_error(1,2) by (simp add: fmtSize_def)
  with fmt_error(5) have "16 \<le> chunkSize"
    by (auto simp: turns_fmt_error [OF fmt_error(1,2,3)])
  from keepsOrderD [OF keepsOrder_decodeFormat [OF this] fmt_error(3) s2] fmt_error show ?case
    by (simp add: walk_fmt_error)
next
  case (fmt format r r1 chunkSize r2 format' r3)
  from keepsOrderD [OF keepsOrder_string fmt(1)] fmt
  have "sorted (offsets r1)" by simp
  with keepsOrderD [OF keepsOrder_uint(3) fmt(2)]
  have s2: "sorted (offsets r2)" by simp
  have "fmtSize r = Some chunkSize"
    using fmt(1,2) by (simp add: fmtSize_def)
  with fmt(6) have "16 \<le> chunkSize"
    by (auto simp: turns_fmt [OF fmt(1,2,3)])
  from keepsOrderD [OF keepsOrder_decodeFormat [OF this] fmt(3) s2]
  have s3: "sorted (offsets r3)" .
  show ?case
  proof (rule fmt.IH)
    show "walk opts (Some format') r3 = Some (res, r')"
      using fmt by (simp add: walk_fmt)
    show "\<forall>(f, r'') \<in> set (turns (Some format') r3). \<forall>n. fmtSize r'' = Some n \<longrightarrow> 16 \<le> n"
      using fmt(6) by (simp add: turns_fmt [OF fmt(1,2,3)])
  qed (rule s3)
next
  case (data format r r1 chunkSize r2)
  from keepsOrderD [OF keepsOrder_string data(1)] data
  have "sorted (offsets r1)" by simp
  with keepsOrderD [OF keepsOrder_uint(3) data(2)]
  have s2: "sorted (offsets r2)" by simp
  from data have "decodeData chunkSize format opts r2 = Some (res, r')"
    by (simp add: walk_data)
  from decodeData_order [OF this s2] show ?case .
next
  case (other format r chunkType r1 chunkSize r2)
  from keepsOrderD [OF keepsOrder_string other(1)] other
  have "sorted (offsets r1)" by simp
  with keepsOrderD [OF keepsOrder_uint(3) other(2)]
  have s2: "sorted (offsets r2)" by simp
  then have s3: "sorted (offsets (skip (int chunkSize) r2))"
    by (simp add: skip_def sorted_offsets_advance)
  show ?case
  proof (rule other.IH)
    show "walk opts format (skip (int chunkSize) r2) = Some (res, r')"
      using other by (simp add: walk_other)
    show "\<forall>(f, r'') \<in> set (turns format (skip (int chunkSize) r2)).
        \<forall>n. fmtSize r'' = Some n \<longrightarrow> 16 \<le> n"
      using other(7) by (simp add: turns_other [OF other(1,2,3,4)])
  qed (rule s3)
qed

lemma turns_order:
  assumes "\<forall>(f, r'') \<in> set (turns format r). \<forall>n. fmtSize r'' = Some n \<longrightarrow> 16 \<le> n"
    and "sorted (offsets r)"
  shows "\<forall>(f, r'') \<in> set (turns format r). sorted (offsets r'')"
  using assms
proof (induction format r rule: loop_induct)
  case (tag_error format r e r1)
  then show ?case by (simp add: turns_tag_error)
next
  case (size_error format r chunkType r1 e r2)
  then show ?case by (simp add: turns_size_error)
next
  case (fmt_error format r r1 chunkSize r2 e r3)
  then show ?case by (simp add: turns_fmt_error)
next
  case (fmt format r r1 chunkSize r2 format' r3)
  from keepsOrderD [OF keepsOrder_string fmt(1)] fmt
  have "sorted (offsets r1)" by simp
  with keepsOrderD [OF keepsOrder_uint(3) fmt(2)]
  have s2: "sorted (offsets r2)" by simp
  have "fmtSize r = Some chunkSize"
    using fmt(1,2) by (simp add: fmtSize_def)
  with fmt(5) have "16 \<le> chunkSize"
    by (auto simp: turns_fmt [OF fmt(1,2,3)])
  from keepsOrderD [OF keepsOrder_decodeFormat [OF this] fmt(3) s2]
  have s3: "sorted (offsets r3)" .
  have "\<forall>(f, r'') \<in> set (turns (Some format') r3). sorted (offsets r'')"
    using fmt(5) by (intro fmt.IH s3) (simp add: turns_fmt [OF fmt(1,2,3)])
  with fmt(6) show ?case by (simp add: turns_fmt [OF fmt(1,2,3)])
next
  case (data format r r1 chunkSize r2)
  then show ?case by (simp add: turns_data)
next
  case (other format r chunkType r1 chunkSize r2)
  from keepsOrderD [OF keepsOrder_string other(1)] other
  have "sorted (offsets r1)" by simp
  with keepsOrderD [OF keepsOrder_uint(3) other(2)]
  have s2: "sorted (offsets r2)" by simp
  then have s3: "sorted (offsets (skip (int chunkSize) r2))"
    by (simp add: skip_def sorted_offsets_advance)
  have "\<forall>(f, r'') \<in> set (turns format (skip (int chunkSize) r2)). sorted (offsets r'')"
    using other(6) by (intro other.IH s3) (simp add: turns_other [OF other(1,2,3,4)])
  with other(7) show ?case by (simp add: turns_other [OF other(1,2,3,4)])
qed

lemma riffHeader_order:
  assumes "riffHeader r = (res, r')" "sorted (offsets r)"
  shows "sorted (offsets r')"
proof -
  obtain x1 r1 where a: "string 4 r = (x1, r1)" by (cases "string 4 r")
  obtain x2 r2 where b: "uint32 r1 = (x2, r2)" by (cases "uint32 r1")
  obtain x3 r3 where c: "string 4 r2 = (x3, r3)" by (cases "string 4 r2")
  have s1: "sorted (offsets r1)"
    using keepsOrderD [OF keepsOrder_string a assms(2)] .
  have s2: "sorted (offsets r2)"
    using keepsOrderD [OF keepsOrder_uint(3) b s1] .
  have s3: "sorted (offsets r3)"
    using keepsOrderD [OF keepsOrder_string c s2] .
  from assms(1) a b c have "r' = r1 \<or> r' = r2 \<or> r' = r3"
    by (auto simp: riffHeader_def split: sum.splits if_splits)
  with s1 s2 s3 show ?thesis by auto
qed

text \<open>
  C3, as the code has it. The offset of the cursor never decreases in a call of
  \<open>decodeSync\<close> in which every \<open>fmt \<close> chunk that the loop meets declares a size of at
  least 16: it is in order at the start of every turn of the loop and, when the call
  returns or throws, in the cursor it leaves. Every read adds its width to the offset
  and the skip of another chunk adds \<open>chunkSize\<close>; only \<open>skip(chunkSize - 16)\<close> after a
  \<open>fmt \<close> body can subtract.
\<close>

theorem offset_never_decreases_when_fmt_sizes_are_at_least_16:
  assumes "\<forall>(f, r) \<in> set (loopStates buffer). \<forall>n. fmtSize r = Some n \<longrightarrow> 16 \<le> n"
  shows "(\<forall>(f, r) \<in> set (loopStates buffer). sorted (offsets r))
    \<and> (\<forall>res r. decodeSync_run buffer opts = Some (res, r) \<longrightarrow> sorted (offsets r))"
proof -
  have s0: "sorted (offsets (createReader buffer))"
    by (simp add: createReader_def offsets_def)
  obtain x r0 where h: "riffHeader (createReader buffer) = (x, r0)"
    by (cases "riffHeader (createReader buffer)")
  have sh: "sorted (offsets r0)"
    using riffHeader_order [OF h s0] .
  show ?thesis
  proof (cases x)
    case (Inl e)
    with h sh show ?thesis by (auto simp: loopStates_def decodeSync_run_def)
  next
    case (Inr ok)
    with h have ls: "loopStates buffer = turns None r0"
      by (simp add: loopStates_def)
    have a: "\<forall>(f, r) \<in> set (loopStates buffer). sorted (offsets r)"
      using assms sh unfolding ls by (rule turns_order)
    have b: "sorted (offsets r)" if "decodeSync_run buffer opts = Some (res, r)" for res r
    proof -
      from that h Inr have "walk (case opts of None \<Rightarrow> \<lparr>symmetric = None\<rparr> | Some given \<Rightarrow> given)
          None r0 = Some (res, r)"
        by (simp add: decodeSync_run_def)
      from walk_order [OF this assms [unfolded ls] sh] show ?thesis .
    qed
    from a b show ?thesis by blast
  qed
qed

text \<open>
  C3, as the claim states it, fails: in \<open>shortFmtWav\<close> the \<open>fmt \<close> chunk declares the
  size 0, so after the 16 bytes of the body, read up to offset 36, \<open>skip(-16)\<close> moves
  the cursor back to offset 20; the loop then reads the body again as a chunk header.
\<close>

theorem offset_moves_back_after_short_fmt_chunk:
  "decodeSync_run shortFmtWav None =
     Some (Inl RangeError,
           \<lparr>buf = shortFmtWav, pos = 8028,
            past = [28, 24, 23, 22, 21, 20, 36, 34, 32, 28, 24, 22, 20, 16, 15, 14, 13, 12,
                    11, 10, 9, 8, 4, 3, 2, 1, 0]\<rparr>)
   \<and> \<not> sorted (offsets
           \<lparr>buf = shortFmtWav, pos = 8028,
            past = [28, 24, 23, 22, 21, 20, 36, 34, 32, 28, 24, 22, 20, 16, 15, 14, 13, 12,
                    11, 10, 9, 8, 4, 3, 2, 1, 0]\<rparr>)"
proof
  have "decodeSync_run shortFmtWav None =
     Some (Inl RangeError,
           \<lparr>buf = [0x52, 0x49, 0x46, 0x46, 28, 0, 0, 0, 0x57, 0x41, 0x56, 0x45,
              0x66, 0x6D, 0x74, 0x20, 0, 0, 0, 0, 1, 0, 1, 0, 0x40, 0x1F, 0, 0, 0x80, 0x3E, 0, 0,
              2, 0, 16, 0], pos = 8028,
            past = [28, 24, 23, 22, 21, 20, 36, 34, 32, 28, 24, 22, 20, 16, 15, 14, 13, 12,
                    11, 10, 9, 8, 4, 3, 2, 1, 0]\<rparr>)"
    by (simp add: eval_all shortFmtWav_def)
  then show "decodeSync_run shortFmtWav None =
     Some (Inl RangeError,
           \<lparr>buf = shortFmtWav, pos = 8028,
            past = [28, 24, 23, 22, 21, 20, 36, 34, 32, 28, 24, 22, 20, 16, 15, 14, 13, 12,
                    11, 10, 9, 8, 4, 3, 2, 1, 0]\<rparr>)"
    by (simp add: shortFmtWav_def)
  show "\<not> sorted (offsets
           \<lparr>buf = shortFmtWav, pos = 8028,
            past = [28, 24, 23, 22, 21, 20, 36, 34, 32, 28, 24, 22, 20, 16, 15, 14, 13, 12,
                    11, 10, 9, 8, 4, 3, 2, 1, 0]\<rparr>)"
    by (simp add: offsets_def)
qed

theorem offset_never_decreases_when_fmt_sizes_are_at_least_16_witness:
  "decodeSync_run pcm16Wav None =
     Some (Inr \<lparr>info_numberOfChannels = 1, info_length = Num 2, info_sampleRate = 8000,
                channelData = [[Scaled (1 / 32767), Scaled (- 1 / 32768)]]\<rparr>,
           \<lparr>buf = pcm16Wav, pos = 48,
            past = [46, 44, 40, 39, 38, 37, 36, 36, 34, 32, 28, 24, 22, 20, 16, 15, 14, 13, 12,
                    11, 10, 9, 8, 4, 3, 2, 1, 0]\<rparr>)
   \<and> sorted (offsets
         \<lparr>buf = pcm16Wav, pos = 48,
          past = [46, 44, 40, 39, 38, 37, 36, 36, 34, 32, 28, 24, 22, 20, 16, 15, 14, 13, 12,
                  11, 10, 9, 8, 4, 3, 2, 1, 0]\<rparr>)"
proof -
  have run: "decodeSync_run pcm16Wav None =
     Some (Inr \<lparr>info_numberOfChannels = 1, info_length = Num 2, info_sampleRate = 8000,
                channelData = [[Scaled (1 / 32767), Scaled (- 1 / 32768)]]\<rparr>,
           \<lparr>buf = pcm16Wav, pos = 48,
            past = [46, 44, 40, 39, 38, 37, 36, 36, 34, 32, 28, 24, 22, 20, 16, 15, 14, 13, 12,
                    11, 10, 9, 8, 4, 3, 2, 1, 0]\<rparr>)"
    by (simp add: eval_all pcm16Wav_def)
  have "\<forall>(f, r) \<in> set (loopStates pcm16Wav). \<forall>n. fmtSize r = Some n \<longrightarrow> 16 \<le> n"
    by (simp add: loopStates_def fmtSize_def eval_all pcm16Wav_def)
  from offset_never_decreases_when_fmt_sizes_are_at_least_16 [OF this, of None] run
  show ?thesis by simp
qed

section \<open>The order of the samples\<close>

lemma readMany_Suc_Inr:
  assumes "readMany read (Suc k) r = (Inr xs, r')"
  obtains v vs r1 where "read r = (Inr v, r1)" "readMany read k r1 = (Inr vs, r')" "xs = v # vs"
  using assms by (auto split: prod.splits sum.splits)

lemma readMany_length: "readMany read k r = (Inr xs, r') \<Longrightarrow> length xs = k"
proof (induction k arbitrary: r xs)
  case 0
  then show ?case by simp
next
  case (Suc k)
  from Suc.prems obtain v vs r1 where
    "readMany read k r1 = (Inr vs, r')" "xs = v # vs"
    by (rule readMany_Suc_Inr)
  with Suc.IH show ?case by simp
qed

lemma readMany_add:
  assumes "readMany read (a + b) r = (Inr xs, r')"
  shows "\<exists>ys zs r1. readMany read a r = (Inr ys, r1) \<and> readMany read b r1 = (Inr zs, r')
    \<and> xs = ys @ zs \<and> length ys = a"
  using assms
proof (induction a arbitrary: r xs)
  case 0
  then show ?case by simp
next
  case (Suc a)
  from Suc.prems have "readMany read (Suc (a + b)) r = (Inr xs, r')" by simp
  then obtain v vs r1 where
    rd: "read r = (Inr v, r1)" and rest: "readMany read (a + b) r1 = (Inr vs, r')"
    and xs: "xs = v # vs"
    by (rule readMany_Suc_Inr)
  from Suc.IH [OF rest] obtain ys zs r2 where
    "readMany read a r1 = (Inr ys, r2)" "readMany read b r2 = (Inr zs, r')"
    "vs = ys @ zs" "length ys = a"
    by blast
  with rd xs show ?case by simp
qed

lemma readChannels_fills:
  assumes "readMany read (n - ch) r = (Inr xs, r')" "ch \<le> n" "length chans = n"
  shows "\<exists>chans'. readChannels read n i ch chans r = (Inr chans', r') \<and> length chans' = n
    \<and> (\<forall>c<n. chans' ! c = (if ch \<le> c then (chans ! c)[i := xs ! (c - ch)] else chans ! c))"
  using assms
proof (induction "n - ch" arbitrary: ch chans r xs)
  case 0
  then have "ch = n" "xs = []" "r' = r" by simp_all
  with 0 show ?case by (subst readChannels.simps) simp
next
  case (Suc k)
  from Suc.hyps(2) have lt: "ch < n" and k: "k = n - (ch + 1)" by simp_all
  from Suc.hyps(2) Suc.prems(1) have "readMany read (Suc k) r = (Inr xs, r')" by simp
  then obtain v vs r1 where
    rd: "read r = (Inr v, r1)" and rest: "readMany read k r1 = (Inr vs, r')"
    and xs: "xs = v # vs"
    by (rule readMany_Suc_Inr)
  let ?chans1 = "chans[ch := (chans ! ch)[i := v]]"
  have "\<exists>chans'. readChannels read n i (ch + 1) ?chans1 r1 = (Inr chans', r')
      \<and> length chans' = n
      \<and> (\<forall>c<n. chans' ! c =
            (if ch + 1 \<le> c then (?chans1 ! c)[i := vs ! (c - (ch + 1))] else ?chans1 ! c))"
    using rest lt Suc.prems(3) k by (intro Suc.hyps(1)) simp_all
  then obtain chans' where
    rc: "readChannels read n i (ch + 1) ?chans1 r1 = (Inr chans', r')"
    and len: "length chans' = n"
    and el: "\<forall>c<n. chans' ! c =
            (if ch + 1 \<le> c then (?chans1 ! c)[i := vs ! (c - (ch + 1))] else ?chans1 ! c)"
    by blast
  have "readChannels read n i ch chans r = (Inr chans', r')"
    using lt rd rc Suc.prems(3) by (subst readChannels.simps) simp
  moreover have "chans' ! c = (if ch \<le> c then (chans ! c)[i := xs ! (c - ch)] else chans ! c)"
    if "c < n" for c
  proof -
    consider "c < ch" | "c = ch" | "ch < c" by linarith
    then show ?thesis
    proof cases
      case 1
      with el that show ?thesis by simp
    next
      case 2
      with el that xs Suc.prems(3) show ?thesis by simp
    next
      case 3
      then have "c - ch = Suc (c - (ch + 1))" by simp
      with 3 el that xs show ?thesis by simp
    qed
  qed
  ultimately show ?case using len by blast
qed

lemma jsless_nat [simp]: "jsless i (Num (of_nat L)) \<longleftrightarrow> i < L"
  by simp

lemma readFrames_fills:
  assumes "readMany read ((L - i) * n) r = (Inr xs, r')" "i \<le> L" "length chans = n"
  shows "\<exists>chans'. readFrames read n (Num (of_nat L)) i chans r = Some (Inr chans', r')
    \<and> length chans' = n
    \<and> (\<forall>c<n. length (chans' ! c) = length (chans ! c)
          \<and> (\<forall>j<length (chans ! c). chans' ! c ! j =
                (if i \<le> j \<and> j < L then xs ! ((j - i) * n + c) else chans ! c ! j)))"
  using assms
proof (induction "L - i" arbitrary: i chans r xs)
  case 0
  then have "i = L" "xs = []" "r' = r" by simp_all
  with 0 show ?case by (auto simp: readFrames_stops)
next
  case (Suc k)
  from Suc.hyps(2) have lt: "i < L" and k: "k = L - (i + 1)" by simp_all
  from lt have "L - i = Suc (L - (i + 1))" by simp
  then have "(L - i) * n = n + (L - (i + 1)) * n" by simp
  with Suc.prems(1) have "readMany read (n + (L - (i + 1)) * n) r = (Inr xs, r')" by simp
  from readMany_add [OF this] obtain ys zs r1 where
    fst: "readMany read n r = (Inr ys, r1)"
    and rest: "readMany read ((L - (i + 1)) * n) r1 = (Inr zs, r')"
    and xs: "xs = ys @ zs" and ly: "length ys = n"
    by blast
  from fst have "readMany read (n - 0) r = (Inr ys, r1)" by simp
  from readChannels_fills [OF this _ Suc.prems(3), of i] obtain chans1 where
    rc: "readChannels read n i 0 chans r = (Inr chans1, r1)"
    and len1: "length chans1 = n"
    and el1: "\<forall>c<n. chans1 ! c = (chans ! c)[i := ys ! c]"
    by auto
  have "\<exists>chans'. readFrames read n (Num (of_nat L)) (i + 1) chans1 r1 = Some (Inr chans', r')
    \<and> length chans' = n
    \<and> (\<forall>c<n. length (chans' ! c) = length (chans1 ! c)
          \<and> (\<forall>j<length (chans1 ! c). chans' ! c ! j =
                (if i + 1 \<le> j \<and> j < L then zs ! ((j - (i + 1)) * n + c) else chans1 ! c ! j)))"
    using rest lt len1 k by (intro Suc.hyps(1)) simp_all
  then obtain chans' where
    rf: "readFrames read n (Num (of_nat L)) (i + 1) chans1 r1 = Some (Inr chans', r')"
    and len: "length chans' = n"
    and el: "\<forall>c<n. length (chans' ! c) = length (chans1 ! c)
          \<and> (\<forall>j<length (chans1 ! c). chans' ! c ! j =
                (if i + 1 \<le> j \<and> j < L then zs ! ((j - (i + 1)) * n + c) else chans1 ! c ! j))"
    by blast
  have run: "readFrames read n (Num (of_nat L)) i chans r = Some (Inr chans', r')"
    using lt rc rf by (simp add: readFrames_step)
  have "length (chans' ! c) = length (chans ! c)
      \<and> (\<forall>j<length (chans ! c). chans' ! c ! j =
            (if i \<le> j \<and> j < L then xs ! ((j - i) * n + c) else chans ! c ! j))"
    if c: "c < n" for c
  proof (intro conjI allI impI)
    from el el1 c show l: "length (chans' ! c) = length (chans ! c)" by simp
    fix j
    assume j: "j < length (chans ! c)"
    with el el1 c have e: "chans' ! c ! j =
        (if i + 1 \<le> j \<and> j < L then zs ! ((j - (i + 1)) * n + c) else (chans ! c)[i := ys ! c] ! j)"
      by simp
    consider "j < i" | "j = i" | "i < j" "j < L" | "i < j" "L \<le> j" by linarith
    then show "chans' ! c ! j = (if i \<le> j \<and> j < L then xs ! ((j - i) * n + c) else chans ! c ! j)"
    proof cases
      case 1
      with e show ?thesis by simp
    next
      case 2
      with e j lt c xs ly show ?thesis by (simp add: nth_append)
    next
      case 3
      then have "j - i = Suc (j - (i + 1))" by simp
      then have "(j - i) * n + c = n + ((j - (i + 1)) * n + c)" by simp
      with 3 e xs ly show ?thesis by (simp add: nth_append)
    next
      case 4
      with e show ?thesis by simp
    qed
  qed
  with run len show ?case by blast
qed

text \<open>
  C6. For every combination of bit depth, \<open>floatingPoint\<close> and \<open>symmetric\<close> that has a
  reader, \<open>readPCM\<close> consumes the samples frame by frame: when the arrays have the
  length \<open>L\<close> and \<open>xs\<close> are the values that \<open>L\<close> times \<open>numberOfChannels\<close> reads in
  a row return from the cursor, \<open>readPCM\<close> returns with the cursor where these reads
  leave it and with the sample number \<open>i * numberOfChannels + ch\<close> in
  \<open>channelData[ch][i]\<close>.
\<close>

theorem readPCM_reads_frame_by_frame:
  assumes "map_of pcmMethods (methodName format opts) = Some read"
    and "readMany read (L * numberOfChannels format) r = (Inr xs, r')"
    and "length chans = numberOfChannels format"
    and "\<forall>c \<in> set chans. length c = L"
  shows "\<exists>chans'. readPCM chans (Num (of_nat L)) format opts r = Some (Inr chans', r')
    \<and> length chans' = numberOfChannels format
    \<and> (\<forall>ch<numberOfChannels format. length (chans' ! ch) = L
          \<and> (\<forall>i<L. chans' ! ch ! i = xs ! (i * numberOfChannels format + ch)))"
proof -
  let ?n = "numberOfChannels format"
  from assms(2) have "readMany read ((L - 0) * ?n) r = (Inr xs, r')" by simp
  from readFrames_fills [OF this _ assms(3)] obtain chans' where
    rf: "readFrames read ?n (Num (of_nat L)) 0 chans r = Some (Inr chans', r')"
    and len: "length chans' = ?n"
    and el: "\<forall>c<?n. length (chans' ! c) = length (chans ! c)
          \<and> (\<forall>j<length (chans ! c). chans' ! c ! j =
                (if 0 \<le> j \<and> j < L then xs ! ((j - 0) * ?n + c) else chans ! c ! j))"
    by blast
  have "length (chans ! c) = L" if "c < ?n" for c
    using assms(3,4) that by simp
  with el have "\<forall>ch<?n. length (chans' ! ch) = L
          \<and> (\<forall>i<L. chans' ! ch ! i = xs ! (i * ?n + ch))"
    by simp
  with rf len assms(1) show ?thesis by (simp add: readPCM_def)
qed

lemma readMany_numeral:
  "readMany read (numeral k) r =
     (case read r of
        (Inl e, r') \<Rightarrow> (Inl e, r')
      | (Inr v, r') \<Rightarrow>
          (case readMany read (pred_numeral k) r' of
             (Inl e, r'') \<Rightarrow> (Inl e, r'')
           | (Inr vs, r'') \<Rightarrow> (Inr (v # vs), r'')))"
  by (simp add: numeral_eq_Suc)

theorem readPCM_reads_frame_by_frame_witness:
  "readPCM [[Scaled 0, Scaled 0], [Scaled 0, Scaled 0]] (Num 2)
     \<lparr>formatId = 1, floatingPoint = False, numberOfChannels = 2, sampleRate = 8000,
      byteRate = 32000, blockSize = 4, bitDepth = 16\<rparr>
     \<lparr>symmetric = None\<rparr>
     \<lparr>buf = [1, 0, 2, 0, 3, 0, 4, 0], pos = 0, past = []\<rparr>
   = Some (Inr [[Scaled (1 / 32767), Scaled (3 / 32767)],
                [Scaled (2 / 32767), Scaled (4 / 32767)]],
           \<lparr>buf = [1, 0, 2, 0, 3, 0, 4, 0], pos = 8, past = [6, 4, 2, 0]\<rparr>)"
proof -
  let ?F = "\<lparr>formatId = 1, floatingPoint = False, numberOfChannels = 2, sampleRate = 8000,
      byteRate = 32000, blockSize = 4, bitDepth = 16\<rparr>"
  let ?R = "\<lparr>buf = [1, 0, 2, 0, 3, 0, 4, 0], pos = 0, past = []\<rparr>"
  let ?R' = "\<lparr>buf = [1, 0, 2, 0, 3, 0, 4, 0], pos = 8, past = [6, 4, 2, 0]\<rparr>"
  let ?xs = "[Scaled (1 / 32767), Scaled (2 / 32767), Scaled (3 / 32767), Scaled (4 / 32767)]"
  let ?chans = "[[Scaled 0, Scaled 0], [Scaled 0, Scaled 0]]"
  have m: "map_of pcmMethods (methodName ?F \<lparr>symmetric = None\<rparr>) = Some pcm16"
    by (simp add: eval_data char_of_eq_iff)
  have rm: "readMany pcm16 (2 * numberOfChannels ?F) ?R = (Inr ?xs, ?R')"
    by (simp add: readMany_numeral eval_pcm eval_reader)
  have l: "length ?chans = numberOfChannels ?F"
    by simp
  have a: "\<forall>c \<in> set ?chans. length c = 2"
    by simp
  from readPCM_reads_frame_by_frame [OF m rm l a] obtain chans' where
    run: "readPCM ?chans (Num (of_nat 2)) ?F \<lparr>symmetric = None\<rparr> ?R = Some (Inr chans', ?R')"
    and len: "length chans' = 2"
    and el: "\<forall>ch<2. length (chans' ! ch) = 2 \<and> (\<forall>i<2. chans' ! ch ! i = ?xs ! (i * 2 + ch))"
    by auto
  from el have e0: "length (chans' ! 0) = 2" "chans' ! 0 ! 0 = Scaled (1 / 32767)"
      "chans' ! 0 ! 1 = Scaled (3 / 32767)"
    and e1: "length (chans' ! 1) = 2" "chans' ! 1 ! 0 = Scaled (2 / 32767)"
      "chans' ! 1 ! 1 = Scaled (4 / 32767)"
    by simp_all
  have two: "ys = [ys ! 0, ys ! 1]" if "length ys = 2" for ys :: "'b list"
    using that by (cases ys; cases "tl ys") auto
  have "chans' = [chans' ! 0, chans' ! 1]"
    using len by (rule two)
  also have "chans' ! 0 = [Scaled (1 / 32767), Scaled (3 / 32767)]"
    using two [OF e0(1)] e0(2,3) by simp
  also have "chans' ! 1 = [Scaled (2 / 32767), Scaled (4 / 32767)]"
    using two [OF e1(1)] e1(2,3) by simp
  finally show ?thesis using run by simp
qed

section \<open>The data chunk\<close>

lemma undecimal_decimal: "undecimal (decimal n) = n"
proof (induction n rule: decimal.induct)
  case (1 n)
  show ?case
  proof (cases "n < 10")
    case True
    then show ?thesis
      by (subst decimal.simps) (simp add: undecimal_def)
  next
    case False
    with 1 have "undecimal (decimal (n div 10)) = n div 10" by simp
    with False show ?thesis
      by (subst decimal.simps) (simp add: undecimal_def)
  qed
qed

lemma decimal_digits: "\<forall>c \<in> set (decimal n). 48 \<le> (of_char c :: nat) \<and> (of_char c :: nat) < 58"
proof (induction n rule: decimal.induct)
  case (1 n)
  show ?case
  proof (cases "n < 10")
    case True
    then show ?thesis
      by (subst decimal.simps) simp
  next
    case False
    with 1 have "\<forall>c \<in> set (decimal (n div 10)). 48 \<le> (of_char c :: nat) \<and> (of_char c :: nat) < 58"
      by simp
    moreover have "n mod 10 < 10" by simp
    ultimately show ?thesis using False
      by (subst decimal.simps) (auto simp del: mod_less_divisor)
  qed
qed

lemma decimal_eqD:
  "decimal n = s \<Longrightarrow> n = undecimal s \<and> (\<forall>c \<in> set s. 48 \<le> (of_char c :: nat) \<and> (of_char c :: nat) < 58)"
  using undecimal_decimal [of n] decimal_digits [of n] by auto

text \<open>The combinations of bit depth and option that have a reader, with the reader.\<close>

lemma pcmMethods_cases:
  assumes "map_of pcmMethods (''pcm'' @ decimal d @ opt) = Some read"
    and "opt = [] \<or> opt = ''s'' \<or> opt = ''f''"
  shows "(d, opt, read) \<in>
    {(8, [], pcm8), (8, ''s'', pcm8s), (16, [], pcm16), (16, ''s'', pcm16s),
     (24, [], pcm24), (24, ''s'', pcm24s), (32, [], pcm32), (32, ''s'', pcm32s),
     (32, ''f'', pcm32f), (64, ''f'', pcm64f)}"
proof -
  consider "opt = []" | "opt = ''s''" | "opt = ''f''" using assms(2) by blast
  then show ?thesis
  proof cases
    case 1
    with assms(1) show ?thesis
      by (auto simp: pcmMethods_def undecimal_def split: if_splits dest!: decimal_eqD)
  next
    case 2
    with assms(1) show ?thesis
      by (auto simp: pcmMethods_def undecimal_def snoc_eq_iff_butlast split: if_splits
          dest!: decimal_eqD sym [of _ "decimal d"])
  next
    case 3
    with assms(1) show ?thesis
      by (auto simp: pcmMethods_def undecimal_def snoc_eq_iff_butlast split: if_splits
          dest!: decimal_eqD sym [of _ "decimal d"])
  qed
qed

lemma reads_fetch:
  assumes "\<And>bs p. inView bs p w \<Longrightarrow> \<exists>d. get bs p = Inr d"
    and "\<And>bs p. \<not> inView bs p w \<Longrightarrow> get bs p = Inl RangeError"
    and "wi = int w"
  shows "reads w (fetch get wi f)"
  unfolding reads_def
proof
  fix r
  show "if inView (buf r) (pos r) w then \<exists>v. fetch get wi f r = (Inr v, advance (int w) r)
        else fetch get wi f r = (Inl RangeError, r)"
  proof (cases "inView (buf r) (pos r) w")
    case True
    from assms(1) [OF this] obtain d where "get (buf r) (pos r) = Inr d" by blast
    with True assms(3) show ?thesis by (simp add: fetch_def)
  next
    case False
    from assms(2) [OF this] False show ?thesis by (simp add: fetch_def)
  qed
qed

lemma getUint24parts_view:
  "inView bs p 3 \<Longrightarrow> \<exists>d. getUint24parts bs p = Inr d"
  "\<not> inView bs p 3 \<Longrightarrow> getUint24parts bs p = Inl RangeError"
  by (auto simp: getUint24parts_def getUint8_def getUint_def inView_def Let_def)

lemma reads_pcm:
  "reads (Suc 0) pcm8" "reads (Suc 0) pcm8s" "reads 2 pcm16" "reads 2 pcm16s"
  "reads 3 pcm24" "reads 3 pcm24s" "reads 4 pcm32" "reads 4 pcm32s"
  "reads 4 pcm32f" "reads 8 pcm64f"
proof -
  show "reads (Suc 0) pcm8"
    unfolding pcm8_def by (rule reads_fetch) (simp_all add: getUint8_def getUint_def)
  show "reads (Suc 0) pcm8s"
    unfolding pcm8s_def by (rule reads_fetch) (simp_all add: getUint8_def getUint_def)
  show "reads 2 pcm16"
    unfolding pcm16_def by (rule reads_fetch) (simp_all add: getInt16_def getInt_def)
  show "reads 2 pcm16s"
    unfolding pcm16s_def by (rule reads_fetch) (simp_all add: getInt16_def getInt_def)
  show "reads 3 pcm24"
    unfolding pcm24_def by (rule reads_fetch) (simp_all add: getUint24parts_view)
  show "reads 3 pcm24s"
    unfolding pcm24s_def by (rule reads_fetch) (simp_all add: getUint24parts_view)
  show "reads 4 pcm32"
    unfolding pcm32_def by (rule reads_fetch) (simp_all add: getInt32_def getInt_def)
  show "reads 4 pcm32s"
    unfolding pcm32s_def by (rule reads_fetch) (simp_all add: getInt32_def getInt_def)
  show "reads 4 pcm32f"
    unfolding pcm32f_def by (rule reads_fetch) (simp_all add: getFloat32_def)
  show "reads 8 pcm64f"
    unfolding pcm64f_def by (rule reads_fetch) (simp_all add: getFloat64_def)
qed

lemma decoderOption_cases:
  "decoderOption format opts = [] \<or> decoderOption format opts = ''s''
   \<or> decoderOption format opts = ''f''"
  by (simp add: decoderOption_def)

text \<open>Every reader that \<open>readPCM\<close> can find reads \<open>bitDepth / 8\<close> bytes.\<close>

lemma method_width:
  assumes "map_of pcmMethods (methodName format opts) = Some read"
  shows "reads (bitDepth format div 8) read \<and> 0 < bitDepth format div 8"
proof -
  from assms have "map_of pcmMethods (''pcm'' @ decimal (bitDepth format) @ decoderOption format opts)
      = Some read"
    by (simp add: methodName_def)
  from pcmMethods_cases [OF this decoderOption_cases]
  show ?thesis by (auto simp: reads_pcm)
qed

lemma readMany_room:
  assumes "reads w read" "inView (buf r) (pos r) (k * w)"
  shows "\<exists>xs r'. readMany read k r = (Inr xs, r') \<and> buf r' = buf r
    \<and> pos r' = pos r + int (k * w)"
  using assms(2)
proof (induction k arbitrary: r)
  case 0
  then show ?case by simp
next
  case (Suc k)
  have "int (Suc k * w) = int w + int (k * w)" by simp
  with Suc.prems have "0 \<le> pos r" "pos r + int w + int (k * w) \<le> int (length (buf r))"
    unfolding inView_def by linarith+
  then have v: "inView (buf r) (pos r) w"
    and rest: "inView (buf r) (pos r + int w) (k * w)"
    unfolding inView_def by linarith+
  from assms(1) v obtain x where rd: "read r = (Inr x, advance (int w) r)"
    by (auto simp: reads_def split: if_splits)
  from rest have "inView (buf (advance (int w) r)) (pos (advance (int w) r)) (k * w)"
    by simp
  from Suc.IH [OF this] obtain xs r' where
    "readMany read k (advance (int w) r) = (Inr xs, r')" "buf r' = buf r"
    "pos r' = pos r + int w + int (k * w)"
    by auto
  with rd show ?case by (simp add: algebra_simps)
qed

lemma newChannels_finite:
  "newChannels n (Num (of_nat L)) = Inr (replicate n (replicate L (Scaled 0)))"
  by (induction n) simp_all

lemma frameLength_div:
  assumes "1 \<le> numberOfChannels format" "1 \<le> blockSize format"
  shows "frameLength c format =
    Num (of_int (c div (int (blockSize format) * int (numberOfChannels format))))"
proof -
  have "of_int c / of_nat (blockSize format) / of_nat (numberOfChannels format) =
      (of_int c :: rat) / of_int (int (blockSize format) * int (numberOfChannels format))"
    by simp
  then have "\<lfloor>of_int c / of_nat (blockSize format) / of_nat (numberOfChannels format) :: rat\<rfloor> =
      c div (int (blockSize format) * int (numberOfChannels format))"
    by (simp only: floor_divide_of_int_eq)
  with assms show ?thesis by (simp add: frameLength_finite)
qed

text \<open>
  What \<open>decodeData\<close> returns when the block size is not less than the width of a
  sample: \<open>L\<close> frames, for the quotient \<open>L\<close> of the clamped size by block size times
  channels, read from \<open>L * numberOfChannels\<close> samples that all lie in the buffer.
\<close>

lemma decodeData_inside:
  assumes "0 \<le> pos r" and "pos r \<le> int (length (buf r))"
    and "map_of pcmMethods (methodName format opts) = Some read"
    and "1 \<le> numberOfChannels format"
    and "bitDepth format div 8 \<le> blockSize format"
    and "L = nat (min (int chunkSize) (remain r)
                  div (int (blockSize format) * int (numberOfChannels format)))"
  shows "\<exists>chans' r'. decodeData chunkSize (Some format) opts r =
      Some (Inr \<lparr>info_numberOfChannels = numberOfChannels format, info_length = Num (of_nat L),
                 info_sampleRate = sampleRate format, channelData = chans'\<rparr>, r')
    \<and> frameLength (min (int chunkSize) (remain r)) format = Num (of_nat L)
    \<and> length chans' = numberOfChannels format
    \<and> (\<forall>c<numberOfChannels format. length (chans' ! c) = L)
    \<and> buf r' = buf r
    \<and> pos r' = pos r + int (L * numberOfChannels format * (bitDepth format div 8))
    \<and> int (L * numberOfChannels format * (bitDepth format div 8))
        \<le> min (int chunkSize) (remain r)"
proof -
  let ?c = "min (int chunkSize) (remain r)"
  let ?n = "numberOfChannels format"
  let ?b = "blockSize format"
  let ?w = "bitDepth format div 8"
  from method_width [OF assms(3)] have rd: "reads ?w read" and w: "0 < ?w" by simp_all
  from w assms(5) have b: "1 \<le> ?b" by simp
  have c0: "0 \<le> ?c" and cr: "?c \<le> remain r"
    using assms(2) by (simp_all add: remain_def)
  have bn: "0 < int ?b * int ?n"
    using b assms(4) by simp
  then have q0: "0 \<le> ?c div (int ?b * int ?n)"
    using c0 by (simp add: pos_imp_zdiv_nonneg_iff)
  have fl: "frameLength ?c format = Num (of_nat L)"
    using q0 by (simp add: frameLength_div [OF assms(4) b] assms(6))
  have "?c div (int ?b * int ?n) * (int ?b * int ?n) + ?c mod (int ?b * int ?n) = ?c"
    by (rule div_mult_mod_eq)
  moreover have "0 \<le> ?c mod (int ?b * int ?n)"
    using bn by (rule pos_mod_sign)
  moreover have "int L = ?c div (int ?b * int ?n)"
    using q0 by (simp add: assms(6))
  ultimately have "int L * (int ?b * int ?n) \<le> ?c"
    by (simp only:)
  moreover have "int (L * ?n * ?w) \<le> int L * (int ?b * int ?n)"
    using assms(5) by (simp add: mult_le_mono flip: of_nat_mult)
  ultimately have room: "int (L * ?n * ?w) \<le> ?c" by linarith
  with cr assms(1) have "inView (buf r) (pos r) (L * ?n * ?w)"
    by (simp add: inView_def remain_def)
  from readMany_room [OF rd this] obtain xs r' where
    rm: "readMany read (L * ?n) r = (Inr xs, r')" and br: "buf r' = buf r"
    and pr: "pos r' = pos r + int (L * ?n * ?w)"
    by blast
  from rm have "readMany read ((L - 0) * ?n) r = (Inr xs, r')" by simp
  from readFrames_fills [OF this, of "replicate ?n (replicate L (Scaled 0))"] obtain chans' where
    rf: "readFrames read ?n (Num (of_nat L)) 0 (replicate ?n (replicate L (Scaled 0))) r
      = Some (Inr chans', r')"
    and len: "length chans' = ?n"
    and el: "\<forall>c<?n. length (chans' ! c) = L"
    by auto
  have run: "decodeData chunkSize (Some format) opts r =
      Some (Inr \<lparr>info_numberOfChannels = ?n, info_length = Num (of_nat L),
                 info_sampleRate = sampleRate format, channelData = chans'\<rparr>, r')"
    using fl rf assms(3) by (simp add: decodeData_def readPCM_def newChannels_finite)
  with fl len el br pr room show ?thesis by blast
qed

lemma decodeData_clamps:
  "min (int n) (remain r) = min (int chunkSize) (remain r) \<Longrightarrow>
   decodeData n format opts r = decodeData chunkSize format opts r"
  by (simp add: decodeData_def)

lemma decodeData_length:
  "decodeData chunkSize (Some format) opts r = Some (Inr info, r') \<Longrightarrow>
   info_length info = frameLength (min (int chunkSize) (remain r)) format"
  by (auto simp: decodeData_def Let_def split: sum.splits option.splits prod.splits)

text \<open>
  C4, as the code has it. \<open>decodeData\<close> puts the smaller of the declared size and the
  bytes that remain in the place of the declared size before anything else: two
  declared sizes with the same minimum give the same decode, and the frame count
  returned is the one computed from the clamped size. When the cursor is inside the
  buffer, the format has a channel, the bit depth has a reader and a block is not
  smaller than one sample of \<open>bitDepth / 8\<close> bytes for each channel, no read of the
  decode raises: it returns the audio, the frames counted take no more than the
  clamped size, every sample of them is read, and the cursor has moved forward by no
  more than the clamped size and is still inside the buffer.
\<close>

theorem decodeData_clamped_reads_stay_inside:
  "(\<forall>n. min (int n) (remain r) = min (int chunkSize) (remain r) \<longrightarrow>
       decodeData n given opts r = decodeData chunkSize given opts r)
   \<and> (\<forall>info r'. decodeData chunkSize (Some format) opts r = Some (Inr info, r') \<longrightarrow>
         info_length info = frameLength (min (int chunkSize) (remain r)) format)
   \<and> (0 \<le> pos r \<and> pos r \<le> int (length (buf r))
       \<and> map_of pcmMethods (methodName format opts) \<noteq> None
       \<and> 1 \<le> numberOfChannels format
       \<and> numberOfChannels format * (bitDepth format div 8) \<le> blockSize format \<longrightarrow>
       (\<exists>info r' k. decodeData chunkSize (Some format) opts r = Some (Inr info, r')
          \<and> info_length info = Num (of_nat k)
          \<and> int (k * blockSize format) \<le> min (int chunkSize) (remain r)
          \<and> buf r' = buf r
          \<and> pos r' = pos r + int (k * numberOfChannels format * (bitDepth format div 8))
          \<and> pos r' \<le> pos r + min (int chunkSize) (remain r)
          \<and> pos r' \<le> int (length (buf r))))"
proof (intro conjI allI impI)
  fix n
  assume "min (int n) (remain r) = min (int chunkSize) (remain r)"
  then show "decodeData n given opts r = decodeData chunkSize given opts r"
    by (rule decodeData_clamps)
next
  fix info r'
  assume "decodeData chunkSize (Some format) opts r = Some (Inr info, r')"
  then show "info_length info = frameLength (min (int chunkSize) (remain r)) format"
    by (rule decodeData_length)
next
  let ?c = "min (int chunkSize) (remain r)"
  let ?n = "numberOfChannels format"
  let ?b = "blockSize format"
  let ?w = "bitDepth format div 8"
  let ?d = "int ?b * int ?n"
  assume a: "0 \<le> pos r \<and> pos r \<le> int (length (buf r))
       \<and> map_of pcmMethods (methodName format opts) \<noteq> None
       \<and> 1 \<le> ?n \<and> ?n * ?w \<le> ?b"
  then obtain read where m: "map_of pcmMethods (methodName format opts) = Some read"
    by auto
  from a have p: "0 \<le> pos r" "pos r \<le> int (length (buf r))" and n: "1 \<le> ?n"
    and block: "?n * ?w \<le> ?b" by simp_all
  have "1 * ?w \<le> ?n * ?w" using n by (intro mult_le_mono1)
  with block have w: "?w \<le> ?b" by linarith
  define L where "L = nat (?c div ?d)"
  from decodeData_inside [OF p m n w L_def] obtain chans' r' where
    run: "decodeData chunkSize (Some format) opts r =
      Some (Inr \<lparr>info_numberOfChannels = ?n, info_length = Num (of_nat L),
                 info_sampleRate = sampleRate format, channelData = chans'\<rparr>, r')"
    and br: "buf r' = buf r"
    and pr: "pos r' = pos r + int (L * ?n * ?w)"
    and room: "int (L * ?n * ?w) \<le> ?c"
    by blast
  from method_width [OF m] w have b: "1 \<le> ?b" by simp
  have c0: "0 \<le> ?c" using p(2) by (simp add: remain_def)
  have d: "0 < ?d" using b n by simp
  then have q0: "0 \<le> ?c div ?d" using c0 by (simp add: pos_imp_zdiv_nonneg_iff)
  have "?c div ?d * ?d + ?c mod ?d = ?c" by (rule div_mult_mod_eq)
  moreover have "0 \<le> ?c mod ?d" using d by (rule pos_mod_sign)
  moreover have "int L = ?c div ?d" using q0 by (simp add: L_def)
  ultimately have "int L * ?d \<le> ?c" by (simp only:)
  moreover have "int (L * ?b) \<le> int L * ?d"
    using n by (simp add: mult_le_mono flip: of_nat_mult)
  ultimately have fits: "int (L * ?b) \<le> ?c" by linarith
  have "pos r' \<le> pos r + ?c" unfolding pr using room by linarith
  moreover have "pos r' \<le> int (length (buf r))"
    unfolding pr using room by (simp add: remain_def)
  ultimately show "\<exists>info r' k. decodeData chunkSize (Some format) opts r = Some (Inr info, r')
          \<and> info_length info = Num (of_nat k)
          \<and> int (k * ?b) \<le> ?c
          \<and> buf r' = buf r
          \<and> pos r' = pos r + int (k * ?n * ?w)
          \<and> pos r' \<le> pos r + ?c
          \<and> pos r' \<le> int (length (buf r))"
    using run br pr fits
    by (intro exI [of _ "\<lparr>info_numberOfChannels = ?n, info_length = Num (of_nat L),
          info_sampleRate = sampleRate format, channelData = chans'\<rparr>"]
        exI [of _ r'] exI [of _ L]) simp
qed

text \<open>
  C4, as the claim states it, fails: with a block size of 1 and a bit depth of 16 the
  three bytes that remain give three frames of two bytes each, and the second read
  goes past the end of the buffer, where \<open>DataView\<close> raises. The same through
  \<open>decodeSync\<close>, on a file whose \<open>data\<close> chunk declares 100 bytes and has 3.
\<close>

theorem decodeData_clamped_read_goes_past_end:
  "decodeData 100
     (Some \<lparr>formatId = 1, floatingPoint = False, numberOfChannels = 1, sampleRate = 8000,
            byteRate = 16000, blockSize = 1, bitDepth = 16\<rparr>)
     \<lparr>symmetric = None\<rparr> \<lparr>buf = [1, 0, 2], pos = 0, past = []\<rparr>
   = Some (Inl RangeError, \<lparr>buf = [1, 0, 2], pos = 2, past = [0]\<rparr>)
   \<and> decodeSync shortBlockWav None = Some (Inl RangeError)"
  by (simp add: decodeSync_def eval_all shortBlockWav_def)

theorem decodeData_clamped_reads_stay_inside_witness:
  "decodeData 100
     (Some \<lparr>formatId = 1, floatingPoint = False, numberOfChannels = 1, sampleRate = 8000,
            byteRate = 16000, blockSize = 2, bitDepth = 16\<rparr>)
     \<lparr>symmetric = None\<rparr> \<lparr>buf = [1, 0, 2, 0, 3], pos = 0, past = []\<rparr>
   = Some (Inr \<lparr>info_numberOfChannels = 1, info_length = Num 2, info_sampleRate = 8000,
                channelData = [[Scaled (1 / 32767), Scaled (2 / 32767)]]\<rparr>,
           \<lparr>buf = [1, 0, 2, 0, 3], pos = 4, past = [2, 0]\<rparr>)
   \<and> decodeData 100
     (Some \<lparr>formatId = 1, floatingPoint = False, numberOfChannels = 1, sampleRate = 8000,
            byteRate = 16000, blockSize = 2, bitDepth = 16\<rparr>)
     \<lparr>symmetric = None\<rparr> \<lparr>buf = [1, 0, 2, 0, 3], pos = 0, past = []\<rparr>
   = decodeData 5
     (Some \<lparr>formatId = 1, floatingPoint = False, numberOfChannels = 1, sampleRate = 8000,
            byteRate = 16000, blockSize = 2, bitDepth = 16\<rparr>)
     \<lparr>symmetric = None\<rparr> \<lparr>buf = [1, 0, 2, 0, 3], pos = 0, past = []\<rparr>"
proof -
  let ?F = "\<lparr>formatId = 1, floatingPoint = False, numberOfChannels = 1, sampleRate = 8000,
              byteRate = 16000, blockSize = 2, bitDepth = 16\<rparr>"
  let ?R = "\<lparr>buf = [1, 0, 2, 0, 3], pos = 0, past = []\<rparr>"
  note c = decodeData_clamped_reads_stay_inside [where chunkSize = 100 and r = ?R and given = "Some ?F"
      and opts = "\<lparr>symmetric = None\<rparr>" and format = ?F]
  have m: "map_of pcmMethods (methodName ?F \<lparr>symmetric = None\<rparr>) = Some pcm16"
    by (simp add: eval_data char_of_eq_iff)
  from c [THEN conjunct1, THEN spec, of 5]
  have same: "decodeData 5 (Some ?F) \<lparr>symmetric = None\<rparr> ?R
      = decodeData 100 (Some ?F) \<lparr>symmetric = None\<rparr> ?R"
    by (simp add: remain_def)
  from c [THEN conjunct2, THEN conjunct2] m
  obtain info r' k where
    run: "decodeData 100 (Some ?F) \<lparr>symmetric = None\<rparr> ?R = Some (Inr info, r')"
    and "info_length info = Num (of_nat k)" "k * 2 \<le> 5" "pos r' = int (k * 2)"
    by (auto simp: remain_def)
  have ev: "decodeData 100 (Some ?F) \<lparr>symmetric = None\<rparr> ?R =
      Some (Inr \<lparr>info_numberOfChannels = 1, info_length = Num 2, info_sampleRate = 8000,
                 channelData = [[Scaled (1 / 32767), Scaled (2 / 32767)]]\<rparr>,
            \<lparr>buf = [1, 0, 2, 0, 3], pos = 4, past = [2, 0]\<rparr>)"
    by (simp add: eval_all)
  with same show ?thesis by simp
qed

text \<open>
  The frame count of a 16-bit chunk that holds \<open>L\<close> complete frames of \<open>N\<close> channels,
  with the block size \<open>2 * N\<close> of such a format: \<open>decodeData\<close> returns \<open>N\<close> arrays of
  \<open>L div N\<close> samples, since it divides the chunk size by the block size and then by
  the number of channels once more.
\<close>

lemma decodeData_16bit_frame_count:
  assumes "numberOfChannels format = N" and "1 \<le> N"
    and "blockSize format = 2 * N" and "bitDepth format = 16" and "\<not> floatingPoint format"
    and "0 \<le> pos r" and "remain r = int (N * L * 2)" and "chunkSize = N * L * 2"
  shows "\<exists>info r'. decodeData chunkSize (Some format) opts r = Some (Inr info, r')
    \<and> info_length info = Num (of_nat (L div N))
    \<and> length (channelData info) = N
    \<and> (\<forall>c<N. length (channelData info ! c) = L div N)"
proof -
  have m: "\<exists>read. map_of pcmMethods (methodName format opts) = Some read"
    using assms(4,5)
    by (simp add: methodName_def decoderOption_def decimal.simps pcmMethods_def char_of_eq_iff)
  then obtain read where rd: "map_of pcmMethods (methodName format opts) = Some read" ..
  have "0 \<le> int (N * L * 2)" by simp
  with assms(7) have p: "pos r \<le> int (length (buf r))"
    unfolding remain_def by linarith
  have w: "bitDepth format div 8 \<le> blockSize format"
    using assms(2,3,4) by simp
  have n: "1 \<le> numberOfChannels format"
    using assms(1,2) by simp
  have "int (N * L * 2) div (int (2 * N) * int N) = int ((N * L * 2) div (2 * N * N))"
    by (simp add: zdiv_int)
  also have "(N * L * 2) div (2 * N * N) = L div N"
    using assms(2) by (simp add: algebra_simps)
  finally have q: "nat (min (int chunkSize) (remain r)
      div (int (blockSize format) * int (numberOfChannels format))) = L div N"
    using assms(1,3,7,8) by simp
  from decodeData_inside [OF assms(6) p rd n w q [symmetric]]
  show ?thesis using assms(1) by auto
qed

text \<open>
  C1. A minimal WAV buffer with 2 channels and 2 complete frames at bit depth 16 (a
  \<open>data\<close> chunk of 8 bytes, block size 4) should decode to 2 arrays of length 2.
  \<open>decodeSync\<close> returns 2 arrays of length 1: the frame length is
  \<open>floor(8 / 4 / 2) = 1\<close>, and the second frame is dropped.
\<close>

theorem stereo_16bit_frames_are_halved:
  "decodeSync stereo16Wav None =
     Some (Inr \<lparr>info_numberOfChannels = 2, info_length = Num 1, info_sampleRate = 8000,
                channelData = [[Scaled (1 / 32767)], [Scaled (2 / 32767)]]\<rparr>)"
  by (simp add: decodeSync_def eval_all stereo16Wav_def)

section \<open>Sample readers\<close>

text \<open>
  C2. For 24-bit integer PCM with \<open>symmetric = false\<close> the claim is that the bytes
  \<open>0xFF 0xFF 0x7F\<close> decode to about \<open>+1.0\<close> and the bytes \<open>0x00 0x00 0x80\<close>, the
  minimum negative sample, to exactly \<open>-1.0\<close>. The reader \<open>pcm24\<close> extends the sign
  only when the assembled value is greater than \<open>0x800000\<close>, so on \<open>0x00 0x00 0x80\<close>
  the value stays \<open>8388608\<close> and is divided by \<open>8388607\<close>: the result is above
  \<open>+1\<close>, not \<open>-1\<close>. The bytes \<open>0xFF 0xFF 0x7F\<close> decode to \<open>1\<close>. The same through
  \<open>decodeSync\<close>, on a 24-bit file with these two samples.
\<close>

theorem pcm24_min_negative_decodes_above_one:
  "fst (pcm24 \<lparr>buf = [0x00, 0x00, 0x80], pos = 0, past = []\<rparr>) = Inr (Scaled (8388608 / 8388607))
   \<and> fst (pcm24 \<lparr>buf = [0x00, 0x00, 0x80], pos = 0, past = []\<rparr>) \<noteq> Inr (Scaled (- 1))
   \<and> fst (pcm24 \<lparr>buf = [0xFF, 0xFF, 0x7F], pos = 0, past = []\<rparr>) = Inr (Scaled 1)
   \<and> decodeSync pcm24Wav None =
       Some (Inr \<lparr>info_numberOfChannels = 1, info_length = Num 2, info_sampleRate = 8000,
                  channelData = [[Scaled (8388608 / 8388607), Scaled 1]]\<rparr>)"
  by (simp add: decodeSync_def eval_all pcm24Wav_def)

end
